theory Spec2Isabelle
  imports Complex_Main "HOL-Library.Word" "HOL-Library.Stream"
begin

unbundle bit_operations_syntax

section \<open>The cuckoo filter of src/src/cuckoofilter.h\<close>

text \<open>
  The class template \<open>CuckooFilter<ItemType, bits_per_item, TableType, HashFamily>\<close> is
  embedded at \<open>ItemType = uint64_t\<close> (the instance example/benchmark.cc builds). Keys and
  values are 64-bit words, tags are \<open>uint32_t\<close>, bucket indices, slots and counters are
  natural numbers (no claim depends on a \<open>size_t\<close> wrapping round).

  The hash functions (\<open>HashUtil::BobHash\<close>, the \<open>HashFamily\<close> member) and the
  template argument \<open>bits_per_item\<close> are not in cuckoofilter.h: they are the fields of
  a parameter record that every operation takes. Member names lose their trailing
  underscore (\<open>table\<close>, \<open>num_items\<close>, \<open>victim\<close>, \<open>hasher\<close>), which an Isabelle
  name cannot end with.
\<close>

type_synonym ItemType = "64 word"
type_synonym tag = "32 word"

record params =
  BobHash :: "ItemType \<Rightarrow> 32 word \<times> 32 word"
  hasher :: "ItemType \<Rightarrow> 64 word"
  bits_per_item :: nat

definition kMaxCuckooCount :: nat where
  "kMaxCuckooCount = 500"

record VictimCache =
  index :: nat
  tag_hash :: "64 word"
  used :: bool
  key :: ItemType
  val :: "64 word"

text \<open>
  The filter object, together with the state of the C library's \<open>rand()\<close> that
  \<open>remove_false_positives\<close> draws from: \<open>rand_state\<close> is the sequence of the values the next
  calls of \<open>rand()\<close> return.
\<close>

record CuckooFilter =
  NumBuckets :: nat
  table :: "nat \<Rightarrow> nat \<Rightarrow> tag"
  hashmap :: "nat \<times> nat \<rightharpoonup> ItemType \<times> 64 word"
  num_items :: nat
  victim :: VictimCache
  rand_state :: "nat stream"

subsection \<open>The collaborators that are declared elsewhere\<close>

text \<open>
  Modelled from the spec: the bucket table (singletable.h is not among the sources).
  Section 4.2: a fixed array of buckets of 4 tag slots with \<open>ReadTag(bucket, slot)\<close> and
  \<open>WriteTag(bucket, slot, tag)\<close>; a slot holding 0 is empty.
\<close>

definition ReadTag :: "CuckooFilter \<Rightarrow> nat \<Rightarrow> nat \<Rightarrow> tag" where
  "ReadTag w i j = table w i j"

definition WriteTag :: "nat \<Rightarrow> nat \<Rightarrow> tag \<Rightarrow> CuckooFilter \<Rightarrow> CuckooFilter" where
  "WriteTag i j t w = w\<lparr>table := (table w)(i := (table w i)(j := t))\<rparr>"

text \<open>
  Modelled from the spec: \<open>rand()\<close> of the C library, the next value of the sequence.
\<close>

definition rand :: "CuckooFilter \<Rightarrow> nat \<times> CuckooFilter" where
  "rand w = (shd (rand_state w), w\<lparr>rand_state := stl (rand_state w)\<rparr>)"

text \<open>
  Modelled from the spec: \<open>InsertTagToBucket(bucket, tag_candidates[4], allow_kickout,
  &out_slot)\<close> of the bucket table (section 4.2). It scans the 4 slots for an empty one
  and places the candidate tag of that slot position there; if none is empty and
  \<open>kickout\<close> holds it overwrites one occupied slot, chosen with \<open>rand()\<close>, with the
  candidate tag of that position and reports the slot; otherwise it changes nothing and
  leaves \<open>slot\<close> as it was. The boolean is the one \<open>insert_impl\<close> tests: true exactly
  when an empty slot took the tag, so that after a false return with \<open>kickout\<close> the
  caller reads what was displaced at \<open>slot\<close>.
\<close>

definition InsertTagToBucket ::
    "nat \<Rightarrow> tag list \<Rightarrow> bool \<Rightarrow> nat \<Rightarrow> CuckooFilter \<Rightarrow> bool \<times> nat \<times> CuckooFilter" where
  "InsertTagToBucket i tg kickout slot w =
     (case List.find (\<lambda>j. ReadTag w i j = 0) [0, 1, 2, 3] of
        Some j \<Rightarrow> (True, j, WriteTag i j (tg ! j) w)
      | None \<Rightarrow>
          if kickout then
            (let (r, w1) = rand w; j = r mod 4
             in (False, j, WriteTag i j (tg ! j) w1))
          else (False, slot, w))"

text \<open>
  Modelled from the spec: the Associative Value Store (the patched libcuckoo map is not
  among the sources). Section 4.3: \<open>read(bucket, slot)\<close>, \<open>write(bucket, slot, key,
  value)\<close>, \<open>delete(bucket, slot)\<close>. The read fills the pair the caller passes by
  reference; where the store has no entry the pair keeps the value the caller gave
  it, which is the value-initialised \<open>std::pair\<close> \<open>(0, 0)\<close> at every call site.
\<close>

definition read_from_bucket_at_slot ::
    "CuckooFilter \<Rightarrow> nat \<Rightarrow> nat \<Rightarrow> ItemType \<times> 64 word \<Rightarrow> ItemType \<times> 64 word" where
  "read_from_bucket_at_slot w i slot key_value =
     (case hashmap w (i, slot) of Some kv \<Rightarrow> kv | None \<Rightarrow> key_value)"

definition add_to_bucket_at_slot ::
    "nat \<Rightarrow> nat \<Rightarrow> ItemType \<Rightarrow> 64 word \<Rightarrow> CuckooFilter \<Rightarrow> CuckooFilter" where
  "add_to_bucket_at_slot i slot k v w = w\<lparr>hashmap := (hashmap w)((i, slot) \<mapsto> (k, v))\<rparr>"

definition del_from_bucket_at_slot :: "nat \<Rightarrow> nat \<Rightarrow> CuckooFilter \<Rightarrow> CuckooFilter" where
  "del_from_bucket_at_slot i slot w = w\<lparr>hashmap := (hashmap w)((i, slot) := None)\<rparr>"

text \<open>
  Modelled from the spec: \<open>upperpower2\<close>, the next power of two (section 6), found by
  doubling from 1.
\<close>

function upperpower2_from :: "nat \<Rightarrow> nat \<Rightarrow> nat" where
  "upperpower2_from p x = (if x \<le> p \<or> p = 0 then p else upperpower2_from (2 * p) x)"
  by pat_completeness auto
termination
  by (relation "measure (\<lambda>(p, x). x - p)") auto

definition upperpower2 :: "nat \<Rightarrow> nat" where
  "upperpower2 x = upperpower2_from 1 x"

subsection \<open>Tags and indices\<close>

text \<open>
  \<open>TagHash\<close>: four tags cut from the 64-bit hash, \<open>bits_per_item\<close> bits each, a zero
  tag replaced by 1. \<open>TagHash_loop b n hv\<close> is the last \<open>n\<close> rounds of the loop.
\<close>

fun TagHash_loop :: "nat \<Rightarrow> nat \<Rightarrow> 64 word \<Rightarrow> tag list" where
  "TagHash_loop b 0 hv = []"
| "TagHash_loop b (Suc n) hv =
     (let t = (ucast (hv AND (push_bit b 1 - 1)) :: tag);
          t = t + (if t = 0 then 1 else 0)
      in t # TagHash_loop b n (drop_bit b hv))"

definition TagHash :: "params \<Rightarrow> 64 word \<Rightarrow> tag list" where
  "TagHash P hv = TagHash_loop (bits_per_item P) 4 hv"

text \<open>
  \<open>GenerateIndexTagHash\<close> returns \<open>(index1, index2, tag, tag_hash)\<close>. The two 32-bit
  outputs of \<open>BobHash\<close> are masked with \<open>NumBuckets() - 1\<close>.
\<close>

definition GenerateIndexTagHash ::
    "params \<Rightarrow> CuckooFilter \<Rightarrow> ItemType \<Rightarrow> nat \<times> nat \<times> tag list \<times> 64 word" where
  "GenerateIndexTagHash P w k =
     (let (index1, index2) = BobHash P k;
          index1 = index1 AND (word_of_nat (NumBuckets w) - 1);
          index2 = index2 AND (word_of_nat (NumBuckets w) - 1);
          th = hasher P k
      in (unat index1, unat index2, TagHash P th, th))"

subsection \<open>The constructor\<close>

text \<open>
  The constructor ignores its argument: the table is sized from the local constant
  \<open>max_num_keys_1 = (1U << 16) * 2\<close>. The quotient \<open>frac\<close> is a \<open>double\<close> in the source;
  it is computed here over the rationals, where \<open>131072 / 32768 / 4\<close> is exactly 1 as it
  is in binary floating point. The table starts with every tag 0, the map empty, and
  \<open>victim\<close> value-initialised. The second argument is the state of \<open>rand()\<close> at
  construction.
\<close>

definition CuckooFilter_new :: "nat \<Rightarrow> nat stream \<Rightarrow> CuckooFilter" where
  "CuckooFilter_new max_num_keys g =
     (let assoc = (4 :: nat);
          max_num_keys_1 = (push_bit 16 1 * 2 :: nat);
          num_buckets = upperpower2 (max 1 (max_num_keys_1 div assoc));
          frac = (of_nat max_num_keys_1 :: rat) / of_nat num_buckets / of_nat assoc;
          num_buckets = (if frac > 96 / 100 then push_bit 1 num_buckets else num_buckets)
      in \<lparr>NumBuckets = num_buckets,
          table = (\<lambda>i j. 0),
          hashmap = Map.empty,
          num_items = 0,
          victim = \<lparr>index = 0, tag_hash = 0, used = False, key = 0, val = 0\<rparr>,
          rand_state = g\<rparr>)"

definition Size :: "CuckooFilter \<Rightarrow> nat" where
  "Size w = num_items w"

subsection \<open>False-positive repair\<close>

definition remove_false_positives ::
    "params \<Rightarrow> nat \<Rightarrow> nat \<Rightarrow> CuckooFilter \<Rightarrow> CuckooFilter" where
  "remove_false_positives P i slot w =
     (let (r, w) = rand w;
          new_slot = r mod 3;
          new_slot = (if new_slot = slot then 3 else new_slot);
          empty_new_slot = (ReadTag w i new_slot = 0);
          key_value_slot = read_from_bucket_at_slot w i slot (0, 0);
          key_value_new_slot =
            (if \<not> empty_new_slot then read_from_bucket_at_slot w i new_slot (0, 0) else (0, 0));
          (_, _, tag_slot, _) = GenerateIndexTagHash P w (fst key_value_slot);
          w = (if \<not> empty_new_slot
               then (let (_, _, tag_new_slot, _) = GenerateIndexTagHash P w (fst key_value_new_slot)
                     in WriteTag i slot (tag_new_slot ! slot) w)
               else WriteTag i slot 0 w);
          w = WriteTag i new_slot (tag_slot ! new_slot) w;
          w = (if \<not> empty_new_slot
               then add_to_bucket_at_slot i slot (fst key_value_new_slot) (snd key_value_new_slot) w
               else del_from_bucket_at_slot i slot w)
      in add_to_bucket_at_slot i new_slot (fst key_value_slot) (snd key_value_slot) w)"

text \<open>The final loop of find, contains and erase over the vector \<open>false_positives\<close>.\<close>

fun repair_all :: "params \<Rightarrow> (nat \<times> nat) list \<Rightarrow> CuckooFilter \<Rightarrow> CuckooFilter" where
  "repair_all P [] w = w"
| "repair_all P ((i, slot) # fps) w = repair_all P fps (remove_false_positives P i slot w)"

subsection \<open>Lookups\<close>

text \<open>The test all four operations start with: the key is the one the Victim holds.\<close>

definition victim_match :: "CuckooFilter \<Rightarrow> ItemType \<Rightarrow> nat \<Rightarrow> nat \<Rightarrow> bool" where
  "victim_match w k i1 i2 =
     (used (victim w) \<and> k = key (victim w) \<and> (i1 = index (victim w) \<or> i2 = index (victim w)))"

text \<open>
  One round of a scan loop of \<open>find\<close>: the state of the round is \<open>(found, val,
  false_positives)\<close>. \<open>contains\<close> runs the same round without \<open>val\<close>.
\<close>

definition find_slot ::
    "CuckooFilter \<Rightarrow> ItemType \<Rightarrow> tag list \<Rightarrow> nat \<Rightarrow> nat \<Rightarrow>
     bool \<times> 64 word \<times> (nat \<times> nat) list \<Rightarrow> bool \<times> 64 word \<times> (nat \<times> nat) list" where
  "find_slot w k tg i slot st =
     (let (found, v, false_positives) = st in
      if tg ! slot = ReadTag w i slot then
        (let key_value = read_from_bucket_at_slot w i slot (0, 0) in
         if k = fst key_value then (True, snd key_value, false_positives)
         else (found, v, false_positives @ [(i, slot)]))
      else st)"

definition find ::
    "params \<Rightarrow> ItemType \<Rightarrow> 64 word \<Rightarrow> CuckooFilter \<Rightarrow> bool \<times> 64 word \<times> CuckooFilter" where
  "find P k v w =
     (let (i1, i2, tg, th) = GenerateIndexTagHash P w k;
          found = victim_match w k i1 i2
      in if found then (True, val (victim w), w)
         else
           (let st = (found, v, []);
                st = foldl (\<lambda>st slot. find_slot w k tg i1 slot st) st [0, 1, 2, 3];
                st = foldl (\<lambda>st slot. find_slot w k tg i2 slot st) st [0, 1, 2, 3];
                (found, v, false_positives) = st
            in (found, v, repair_all P false_positives w)))"

definition findinfilter :: "params \<Rightarrow> ItemType \<Rightarrow> CuckooFilter \<Rightarrow> bool \<times> CuckooFilter" where
  "findinfilter P k w =
     (let (i1, i2, tg, th) = GenerateIndexTagHash P w k;
          found = victim_match w k i1 i2
      in if found then (True, w)
         else if list_ex (\<lambda>slot. tg ! slot = ReadTag w i1 slot) [0, 1, 2, 3] then (True, w)
         else if list_ex (\<lambda>slot. tg ! slot = ReadTag w i2 slot) [0, 1, 2, 3] then (True, w)
         else (False, w))"

definition contains_slot ::
    "CuckooFilter \<Rightarrow> ItemType \<Rightarrow> tag list \<Rightarrow> nat \<Rightarrow> nat \<Rightarrow>
     bool \<times> (nat \<times> nat) list \<Rightarrow> bool \<times> (nat \<times> nat) list" where
  "contains_slot w k tg i slot st =
     (let (found, false_positives) = st in
      if tg ! slot = ReadTag w i slot then
        (let key_value = read_from_bucket_at_slot w i slot (0, 0) in
         if k = fst key_value then (True, false_positives)
         else (found, false_positives @ [(i, slot)]))
      else st)"

definition contains :: "params \<Rightarrow> ItemType \<Rightarrow> CuckooFilter \<Rightarrow> bool \<times> CuckooFilter" where
  "contains P k w =
     (let (i1, i2, tg, th) = GenerateIndexTagHash P w k;
          found = victim_match w k i1 i2
      in if found then (True, w)
         else
           (let st = (found, []);
                st = foldl (\<lambda>st slot. contains_slot w k tg i1 slot st) st [0, 1, 2, 3];
                st = foldl (\<lambda>st slot. contains_slot w k tg i2 slot st) st [0, 1, 2, 3];
                (found, false_positives) = st
            in (found, repair_all P false_positives w)))"

subsection \<open>Insertion\<close>

text \<open>
  One round of the loop of \<open>insert_impl\<close>, entered with \<open>count < kMaxCuckooCount\<close>:
  either the function returns (\<open>Inl\<close>, the state at the return), or the loop goes on
  (\<open>Inr\<close>) with new \<open>curindex\<close>, \<open>curkey\<close>, \<open>curval\<close>, \<open>curtag\<close>, \<open>curtaghash\<close>.
  The \<open>assert\<close> after the write reads back the pair just written.
\<close>

definition insert_round ::
    "params \<Rightarrow> nat \<Rightarrow> nat \<Rightarrow> ItemType \<Rightarrow> 64 word \<Rightarrow> tag list \<Rightarrow> 64 word \<Rightarrow> CuckooFilter \<Rightarrow>
     CuckooFilter + (nat \<times> ItemType \<times> 64 word \<times> tag list \<times> 64 word \<times> CuckooFilter)" where
  "insert_round P count curindex curkey curval curtag curtaghash w =
     (let kickout = (count > 0);
          slot = 2 ^ 64 - 1;
          (ok, slot, w) = InsertTagToBucket curindex curtag kickout slot w
      in if ok then
           (let w = add_to_bucket_at_slot curindex slot curkey curval w
            in Inl (w\<lparr>num_items := num_items w + 1\<rparr>))
         else
           (let (curkey', curval', w) =
                  (if kickout then
                     (let old_key_value = read_from_bucket_at_slot w curindex slot (0, 0);
                          w = add_to_bucket_at_slot curindex slot curkey curval w
                      in (fst old_key_value, snd old_key_value, w))
                   else (curkey, curval, w));
                (i1, i2, curtag', curtaghash') = GenerateIndexTagHash P w curkey';
                curindex' = (if curindex = i1 then i2 else i1)
            in Inr (curindex', curkey', curval', curtag', curtaghash', w)))"

text \<open>
  The loop from \<open>count\<close> on and the code after it. The result is \<open>(returned value, count
  at the return, state)\<close>: \<open>count\<close> is the round in which \<open>return true\<close> ran, or
  \<open>kMaxCuckooCount\<close> when the loop ran out and the entry went to the Victim.
\<close>

function insert_loop ::
    "params \<Rightarrow> nat \<Rightarrow> nat \<Rightarrow> ItemType \<Rightarrow> 64 word \<Rightarrow> tag list \<Rightarrow> 64 word \<Rightarrow> CuckooFilter \<Rightarrow>
     bool \<times> nat \<times> CuckooFilter" where
  "insert_loop P count curindex curkey curval curtag curtaghash w =
     (if count < kMaxCuckooCount then
        (case insert_round P count curindex curkey curval curtag curtaghash w of
           Inl w' \<Rightarrow> (True, count, w')
         | Inr (curindex', curkey', curval', curtag', curtaghash', w') \<Rightarrow>
             insert_loop P (count + 1) curindex' curkey' curval' curtag' curtaghash' w')
      else
        (True, count,
         w\<lparr>victim := (victim w)\<lparr>index := curindex, tag_hash := curtaghash, key := curkey,
                                  val := curval, used := True\<rparr>\<rparr>))"
  by pat_completeness auto
termination
  by (relation "measure (\<lambda>(P, count, rest). kMaxCuckooCount - count)") auto

definition insert_impl ::
    "params \<Rightarrow> ItemType \<Rightarrow> 64 word \<Rightarrow> nat \<Rightarrow> tag list \<Rightarrow> 64 word \<Rightarrow> CuckooFilter \<Rightarrow>
     bool \<times> CuckooFilter" where
  "insert_impl P k v i curtag curtaghash w =
     (let (ok, count, w) = insert_loop P 0 i k v curtag curtaghash w in (ok, w))"

definition insert :: "params \<Rightarrow> ItemType \<Rightarrow> 64 word \<Rightarrow> CuckooFilter \<Rightarrow> bool \<times> CuckooFilter" where
  "insert P k v w =
     (if used (victim w) then (False, w)
      else
        (let (i1, i2, tg, th) = GenerateIndexTagHash P w k
         in insert_impl P k v i1 tg th w))"

subsection \<open>Erase\<close>

text \<open>
  One round of a scan loop of \<open>erase\<close>; the round's state is \<open>(found, false_positives,
  filter)\<close>, since a confirmed slot is cleared inside the loop.
\<close>

definition erase_slot ::
    "ItemType \<Rightarrow> tag list \<Rightarrow> nat \<Rightarrow> nat \<Rightarrow>
     bool \<times> (nat \<times> nat) list \<times> CuckooFilter \<Rightarrow> bool \<times> (nat \<times> nat) list \<times> CuckooFilter" where
  "erase_slot k tg i slot st =
     (let (found, false_positives, w) = st in
      if tg ! slot = ReadTag w i slot then
        (let key_value = read_from_bucket_at_slot w i slot (0, 0) in
         if k = fst key_value then
           (True, false_positives, del_from_bucket_at_slot i slot (WriteTag i slot 0 w))
         else (found, false_positives @ [(i, slot)], w))
      else st)"

definition erase :: "params \<Rightarrow> ItemType \<Rightarrow> CuckooFilter \<Rightarrow> bool \<times> CuckooFilter" where
  "erase P k w =
     (let (i1, i2, tg, th) = GenerateIndexTagHash P w k;
          found = victim_match w k i1 i2
      in if found then (True, w\<lparr>victim := (victim w)\<lparr>used := False\<rparr>\<rparr>)
         else
           (let st = (found, [], w);
                st = foldl (\<lambda>st slot. erase_slot k tg i1 slot st) st [0, 1, 2, 3];
                st = foldl (\<lambda>st slot. erase_slot k tg i2 slot st) st [0, 1, 2, 3];
                (found, false_positives, w) = st;
                w = repair_all P false_positives w
            in if \<not> found then (False, w)
               else if used (victim w) then
                 (let w = w\<lparr>victim := (victim w)\<lparr>used := False\<rparr>\<rparr>;
                      tg = TagHash P (tag_hash (victim w));
                      (_, w) = insert_impl P (key (victim w)) (val (victim w))
                                 (index (victim w)) tg (tag_hash (victim w)) w
                  in (True, w))
               else (True, w)))"

section \<open>Properties stated in the specification\<close>

subsection \<open>Predicates on filter states\<close>

text \<open>
  The invariant of the Associative Value Store (section 3), at one address and for the
  whole table: the store has an entry at \<open>(b, s)\<close> exactly where the table holds a
  non-zero tag, \<open>s\<close> is then one of the four slots, and the tag is the candidate tag of
  the entry's key for slot position \<open>s\<close>.
\<close>

definition slot_ok :: "params \<Rightarrow> CuckooFilter \<Rightarrow> nat \<Rightarrow> nat \<Rightarrow> bool" where
  "slot_ok P w b s =
     (case hashmap w (b, s) of
        None \<Rightarrow> table w b s = 0
      | Some (k, v) \<Rightarrow> s < 4 \<and> table w b s \<noteq> 0 \<and> table w b s = TagHash P (hasher P k) ! s)"

definition store_inv :: "params \<Rightarrow> CuckooFilter \<Rightarrow> bool" where
  "store_inv P w = (\<forall>b s. slot_ok P w b s)"

text \<open>
  A Victim in use carries the tag hash of its key: \<open>insert_impl\<close>, the only writer of
  the Victim, stores the two together, and \<open>erase\<close> re-derives the Victim's tags from
  the stored hash.
\<close>

definition victim_inv :: "params \<Rightarrow> CuckooFilter \<Rightarrow> bool" where
  "victim_inv P w = (used (victim w) \<longrightarrow> tag_hash (victim w) = hasher P (key (victim w)))"

text \<open>
  A confirmed hit for \<open>k\<close> at \<open>(i, slot)\<close>: the tag there is the candidate tag of \<open>k\<close> for
  that slot position and the value store's entry there holds exactly \<open>k\<close>. A false
  positive: the tag matches and the entry holds another key.
\<close>

definition hit_at :: "CuckooFilter \<Rightarrow> ItemType \<Rightarrow> tag list \<Rightarrow> nat \<Rightarrow> nat \<Rightarrow> bool" where
  "hit_at w k tg i slot =
     (tg ! slot = ReadTag w i slot \<and> k = fst (read_from_bucket_at_slot w i slot (0, 0)))"

definition fp_at :: "CuckooFilter \<Rightarrow> ItemType \<Rightarrow> tag list \<Rightarrow> nat \<Rightarrow> nat \<Rightarrow> bool" where
  "fp_at w k tg i slot =
     (tg ! slot = ReadTag w i slot \<and> k \<noteq> fst (read_from_bucket_at_slot w i slot (0, 0)))"

definition confirmed_hit :: "params \<Rightarrow> CuckooFilter \<Rightarrow> ItemType \<Rightarrow> bool" where
  "confirmed_hit P w k =
     (let (i1, i2, tg, th) = GenerateIndexTagHash P w k
      in list_ex (hit_at w k tg i1) [0, 1, 2, 3] \<or> list_ex (hit_at w k tg i2) [0, 1, 2, 3])"

definition victim_holds :: "params \<Rightarrow> CuckooFilter \<Rightarrow> ItemType \<Rightarrow> bool" where
  "victim_holds P w k =
     (let (i1, i2, tg, th) = GenerateIndexTagHash P w k in victim_match w k i1 i2)"

text \<open>
  The vector \<open>false_positives\<close> as the two scan loops of a lookup of \<open>k\<close> leave it: the
  tag-matching addresses of bucket \<open>i1\<close>, then those of bucket \<open>i2\<close>, whose entry holds
  another key.
\<close>

definition false_positives_of :: "params \<Rightarrow> CuckooFilter \<Rightarrow> ItemType \<Rightarrow> (nat \<times> nat) list" where
  "false_positives_of P w k =
     (let (i1, i2, tg, th) = GenerateIndexTagHash P w k
      in map (Pair i1) (filter (fp_at w k tg i1) [0, 1, 2, 3]) @
         map (Pair i2) (filter (fp_at w k tg i2) [0, 1, 2, 3]))"

text \<open>
  The filter-only test in the words of section 4.5: some slot of a candidate bucket holds
  a tag equal to one of the key's candidate tags, or the Victim matches.
\<close>

definition FilterOnlyTest_spec :: "params \<Rightarrow> CuckooFilter \<Rightarrow> ItemType \<Rightarrow> bool" where
  "FilterOnlyTest_spec P w k =
     (let (i1, i2, tg, th) = GenerateIndexTagHash P w k
      in victim_match w k i1 i2 \<or>
         list_ex (\<lambda>slot. list_ex (\<lambda>j. ReadTag w i1 slot = tg ! j) [0, 1, 2, 3]) [0, 1, 2, 3] \<or>
         list_ex (\<lambda>slot. list_ex (\<lambda>j. ReadTag w i2 slot = tg ! j) [0, 1, 2, 3]) [0, 1, 2, 3])"

text \<open>
  The eviction chain in the words of section 4.4: at most \<open>n\<close> insertion attempts,
  numbered from \<open>count\<close>. \<open>Inl (c, w)\<close>: attempt \<open>c\<close> found an empty slot and the chain
  stopped in state \<open>w\<close>. \<open>Inr\<close>: all \<open>n\<close> attempts displaced an entry (or, for the first,
  found the bucket full), and the tuple is what is still to be placed.
\<close>

fun eviction_chain ::
    "params \<Rightarrow> nat \<Rightarrow> nat \<Rightarrow> nat \<times> ItemType \<times> 64 word \<times> tag list \<times> 64 word \<times> CuckooFilter \<Rightarrow>
     (nat \<times> CuckooFilter) + (nat \<times> ItemType \<times> 64 word \<times> tag list \<times> 64 word \<times> CuckooFilter)" where
  "eviction_chain P 0 count st = Inr st"
| "eviction_chain P (Suc n) count (curindex, curkey, curval, curtag, curtaghash, w) =
     (case insert_round P count curindex curkey curval curtag curtaghash w of
        Inl w' \<Rightarrow> Inl (count, w')
      | Inr st' \<Rightarrow> eviction_chain P n (Suc count) st')"

subsection \<open>Example parameters and states\<close>

text \<open>
  Example hash functions with 8-bit tags: the tag hash of a key is the key itself. With
  \<open>hash_one_bucket\<close> every key has both candidate buckets 0; with \<open>hash_two_buckets\<close> key
  100 has both candidate buckets 1 and every other key both candidate buckets 0.
\<close>

definition hash_one_bucket :: params where
  "hash_one_bucket = \<lparr>BobHash = (\<lambda>k. (0, 0)), hasher = (\<lambda>k. k), bits_per_item = 8\<rparr>"

definition hash_two_buckets :: params where
  "hash_two_buckets =
     \<lparr>BobHash = (\<lambda>k. if k = 100 then (1, 1) else (0, 0)), hasher = (\<lambda>k. k), bits_per_item = 8\<rparr>"

text \<open>
  A filter under \<open>hash_two_buckets\<close> whose bucket 0 is full (keys 1, 2, 3, 4), whose
  bucket 1 holds key 100 and whose Victim holds key 5 for bucket 0.
\<close>

definition full_bucket_filter :: CuckooFilter where
  "full_bucket_filter =
     \<lparr>NumBuckets = 65536,
      table = (\<lambda>i j. 0)(0 := (\<lambda>j. 0)(0 := 1, 1 := 1, 2 := 1, 3 := 1), 1 := (\<lambda>j. 0)(0 := 100)),
      hashmap = [(0, 0) \<mapsto> (1, 10), (0, 1) \<mapsto> (2, 20), (0, 2) \<mapsto> (3, 30), (0, 3) \<mapsto> (4, 40),
                 (1, 0) \<mapsto> (100, 1000)],
      num_items = 5,
      victim = \<lparr>index = 0, tag_hash = 5, used = True, key = 5, val = 50\<rparr>,
      rand_state = sconst 0\<rparr>"

text \<open>
  A fresh filter after \<open>insert\<close> of key 2 with value 20 under \<open>hash_one_bucket\<close>: slot 0
  of bucket 0 holds tag 2.
\<close>

definition one_key_filter :: CuckooFilter where
  "one_key_filter = snd (insert hash_one_bucket 2 20 (CuckooFilter_new 1000 (sconst 0)))"

text \<open>
  The flag \<open>found\<close> and the filter state of \<open>erase\<close> after its two scan loops and its
  repair loop, on the path where the Victim did not match.
\<close>

definition erase_scanned :: "params \<Rightarrow> ItemType \<Rightarrow> CuckooFilter \<Rightarrow> bool \<times> CuckooFilter" where
  "erase_scanned P k w =
     (let (i1, i2, tg, th) = GenerateIndexTagHash P w k;
          st = (False, [], w);
          st = foldl (\<lambda>st slot. erase_slot k tg i1 slot st) st [0, 1, 2, 3];
          st = foldl (\<lambda>st slot. erase_slot k tg i2 slot st) st [0, 1, 2, 3];
          (found, false_positives, w) = st
      in (found, repair_all P false_positives w))"

text \<open>
  Under \<open>hash_two_buckets\<close>: every slot of bucket 0 holds a tag and an entry whose key is
  not 100, so that every key the bucket can give up has both candidate buckets 0.
\<close>

definition bucket_zero_full :: "CuckooFilter \<Rightarrow> bool" where
  "bucket_zero_full w =
     (NumBuckets w = 65536 \<and>
      list_all (\<lambda>s. table w 0 s \<noteq> 0 \<and> (\<exists>k v. hashmap w (0, s) = Some (k, v) \<and> k \<noteq> 100))
        [0, 1, 2, 3])"

text \<open>
  The calls that build such a filter with \<open>rand()\<close> returning 0 throughout: keys 5, 2, 3
  and 4 fill bucket 0, key 100 goes to bucket 1, and the sixth \<open>insert\<close> runs through its
  500 rounds.
\<close>

definition full_bucket_built :: CuckooFilter where
  "full_bucket_built =
     (let w = CuckooFilter_new 1000 (sconst 0);
          w = snd (insert hash_two_buckets 5 50 w);
          w = snd (insert hash_two_buckets 2 20 w);
          w = snd (insert hash_two_buckets 3 30 w);
          w = snd (insert hash_two_buckets 4 40 w);
          w = snd (insert hash_two_buckets 100 1000 w)
      in snd (insert hash_two_buckets 1 10 w))"

text \<open>
  The filter with the slots \<open>s\<close> of bucket \<open>i\<close> that satisfy \<open>C\<close> cleared as \<open>erase\<close> clears a
  confirmed slot: the tag set to 0 and the value-store entry deleted.
\<close>

definition clear_slots :: "nat \<Rightarrow> (nat \<Rightarrow> bool) \<Rightarrow> CuckooFilter \<Rightarrow> CuckooFilter" where
  "clear_slots i C w =
     w\<lparr>table := (\<lambda>b s. if b = i \<and> C s then 0 else table w b s),
       hashmap := (\<lambda>(b, s). if b = i \<and> C s then None else hashmap w (b, s))\<rparr>"

text \<open>
  The filter with every confirmed occupant of \<open>k\<close> removed: at each of the four slots of
  the two candidate buckets where the tag matches and the value store's entry holds
  exactly \<open>k\<close>, the tag is 0 and the entry is gone; every other address, the Victim and
  the item count are as before.
\<close>

definition erase_cleared :: "params \<Rightarrow> ItemType \<Rightarrow> CuckooFilter \<Rightarrow> CuckooFilter" where
  "erase_cleared P k w =
     (let (i1, i2, tg, th) = GenerateIndexTagHash P w k
      in w\<lparr>table := (\<lambda>b s. if s < 4 \<and> (b = i1 \<or> b = i2) \<and> hit_at w k tg b s then 0
                            else table w b s),
           hashmap := (\<lambda>(b, s). if s < 4 \<and> (b = i1 \<or> b = i2) \<and> hit_at w k tg b s then None
                                 else hashmap w (b, s))\<rparr>)"

text \<open>
  The last block of \<open>erase\<close> (\<open>// Try removing victim\<close>): a Victim in use is marked
  unused and handed to \<open>insert_impl\<close> at its recorded bucket index, with the tags of its
  recorded tag hash.
\<close>

definition try_removing_victim :: "params \<Rightarrow> CuckooFilter \<Rightarrow> CuckooFilter" where
  "try_removing_victim P w =
     (if used (victim w) then
        (let w = w\<lparr>victim := (victim w)\<lparr>used := False\<rparr>\<rparr>;
             tg = TagHash P (tag_hash (victim w));
             (_, w) = insert_impl P (key (victim w)) (val (victim w)) (index (victim w)) tg
                        (tag_hash (victim w)) w
         in w)
      else w)"

declare insert_loop.simps [simp del]
declare upperpower2_from.simps [simp del]

section \<open>Proofs\<close>

subsection \<open>The constructor\<close>

lemma upperpower2_32768: "upperpower2 32768 = 32768"
  unfolding upperpower2_def by (simp add: upperpower2_from.simps)

text \<open>
  Claim C9. For every argument \<open>max_num_keys\<close> the constructor sizes the table from the
  fixed working size \<open>2^17\<close>: the next power of two of \<open>max(1, 2^17 / 4)\<close> is 32768, the
  load fraction \<open>2^17 / 32768 / 4\<close> exceeds 0.96, so the number is doubled once and every
  filter is created with exactly 65536 buckets.
\<close>

theorem constructor_num_buckets:
  "upperpower2 (max 1 (2 ^ 17 div 4)) = 32768 \<and>
   (2 ^ 17 :: rat) / 32768 / 4 > 96 / 100 \<and>
   NumBuckets (CuckooFilter_new max_num_keys g) = 2 * 32768 \<and>
   NumBuckets (CuckooFilter_new max_num_keys g) = 65536"
  by (simp add: CuckooFilter_new_def upperpower2_32768 Let_def)

theorem constructor_num_buckets_witness:
  "NumBuckets (CuckooFilter_new 1000 (sconst 0)) = 65536 \<and>
   NumBuckets (CuckooFilter_new 1000000 (sconst 0)) = 65536"
  using constructor_num_buckets [of 1000 "sconst 0"]
    constructor_num_buckets [of 1000000 "sconst 0"]
  by simp

subsection \<open>The filter-only test\<close>

text \<open>
  Claim C10. For every key and every filter state, \<open>findinfilter\<close> leaves the whole
  state unchanged: bucket table, value store, Victim and item count (and the state of
  \<open>rand()\<close>: it never calls the repair routine).
\<close>

theorem findinfilter_frame: "snd (findinfilter P k w) = w"
  by (simp add: findinfilter_def Let_def split: prod.splits)

theorem findinfilter_frame_witness:
  "snd (findinfilter hash_two_buckets 5 full_bucket_filter) = full_bucket_filter"
  using findinfilter_frame [of hash_two_buckets 5 full_bucket_filter] by simp

subsection \<open>The result of Add\<close>

lemma insert_loop_ok: "fst (insert_loop P count curindex curkey curval curtag curtaghash w)"
proof (induction P count curindex curkey curval curtag curtaghash w rule: insert_loop.induct)
  case (1 P count curindex curkey curval curtag curtaghash w)
  show ?case
  proof (cases "count < kMaxCuckooCount")
    case True
    show ?thesis
    proof (cases "insert_round P count curindex curkey curval curtag curtaghash w")
      case (Inl w')
      with True show ?thesis by (subst insert_loop.simps) simp
    next
      case (Inr st)
      obtain a b c d e f where st: "st = (a, b, c, d, e, f)" by (cases st) auto
      from "1.IH"[OF True Inr[unfolded st]] True Inr st show ?thesis
        by (subst insert_loop.simps) simp
    qed
  next
    case False
    then show ?thesis by (subst insert_loop.simps) simp
  qed
qed

lemma insert_impl_ok: "fst (insert_impl P k v i tg th w)"
  using insert_loop_ok [of P 0 i k v tg th w]
  by (auto simp: insert_impl_def split: prod.splits)

text \<open>
  Claim C4. \<open>insert\<close> (Add) returns false if and only if the Victim is in use at the
  start of the call; in every other case, the one where the eviction chain runs out and
  the displaced entry goes to the Victim included, it returns true.
\<close>

theorem insert_false_iff_victim_used: "(fst (insert P k v w) = False) = used (victim w)"
  using insert_impl_ok by (simp add: insert_def Let_def split: prod.splits)

theorem insert_false_iff_victim_used_witness:
  "fst (insert hash_two_buckets 7 70 full_bucket_filter) = False \<and>
   used (victim full_bucket_filter) \<and>
   fst (insert hash_two_buckets 7 70 (CuckooFilter_new 1000 (sconst 0))) = True \<and>
   used (victim (CuckooFilter_new 1000 (sconst 0))) = False"
  using insert_false_iff_victim_used [of hash_two_buckets 7 70 full_bucket_filter]
    insert_false_iff_victim_used [of hash_two_buckets 7 70 "CuckooFilter_new 1000 (sconst 0)"]
  by (simp add: full_bucket_filter_def CuckooFilter_new_def Let_def)

subsection \<open>Tags\<close>

lemma TagHash_loop_4:
  "TagHash_loop b 4 hv = TagHash_loop b (Suc (Suc (Suc (Suc 0)))) hv"
  by (simp add: eval_nat_numeral)

lemma TagHash_length: "length (TagHash P hv) = 4"
  by (simp add: TagHash_def TagHash_loop_4 Let_def)

lemma tag_forced_nonzero: "(t :: tag) + (if t = 0 then 1 else 0) \<noteq> 0"
  by (cases "t = 0") simp_all

lemma TagHash_loop_nonzero: "t \<in> set (TagHash_loop b n hv) \<Longrightarrow> t \<noteq> 0"
proof (induction n arbitrary: hv)
  case 0
  then show ?case by simp
next
  case (Suc n)
  then show ?case using tag_forced_nonzero by (auto simp: Let_def)
qed

lemma TagHash_nonzero: "s < 4 \<Longrightarrow> TagHash P hv ! s \<noteq> 0"
  using TagHash_loop_nonzero [of "TagHash P hv ! s" "bits_per_item P" 4 hv] TagHash_length [of P hv]
  by (simp add: TagHash_def)

lemma GenerateIndexTagHash_tag:
  "GenerateIndexTagHash P w k = (i1, i2, tg, th) \<Longrightarrow> tg = TagHash P (hasher P k) \<and> th = hasher P k"
  by (auto simp: GenerateIndexTagHash_def Let_def split: prod.splits)

subsection \<open>The example states\<close>

lemma TagHash_2: "TagHash hash_one_bucket 2 = [2, 1, 1, 1]"
  by (simp add: TagHash_def hash_one_bucket_def TagHash_loop_4 Let_def)

lemma TagHash_258: "TagHash hash_one_bucket 258 = [2, 1, 1, 1]"
  by (simp add: TagHash_def hash_one_bucket_def TagHash_loop_4 Let_def)

lemma TagHash_513: "TagHash hash_one_bucket 513 = [1, 2, 1, 1]"
  by (simp add: TagHash_def hash_one_bucket_def TagHash_loop_4 Let_def)

lemma Gen_one_bucket:
  "GenerateIndexTagHash hash_one_bucket w k = (0, 0, TagHash hash_one_bucket k, k)"
  by (simp add: GenerateIndexTagHash_def hash_one_bucket_def)

lemma Gen_two_buckets:
  "NumBuckets w = 65536 \<Longrightarrow> GenerateIndexTagHash hash_two_buckets w k =
     (if k = 100 then 1 else 0, if k = 100 then 1 else 0, TagHash hash_two_buckets k, k)"
  by (simp add: GenerateIndexTagHash_def hash_two_buckets_def)

lemma insert_loop_0_Inl:
  "insert_round P 0 i k v tg th w = Inl w' \<Longrightarrow> insert_loop P 0 i k v tg th w = (True, 0, w')"
  by (subst insert_loop.simps) (simp add: kMaxCuckooCount_def)

lemma one_key_filter_eq:
  "one_key_filter = \<lparr>NumBuckets = 65536, table = (\<lambda>i j. 0)(0 := (\<lambda>j. 0)(0 := 2)),
      hashmap = [(0, 0) \<mapsto> (2, 20)], num_items = 1,
      victim = \<lparr>index = 0, tag_hash = 0, used = False, key = 0, val = 0\<rparr>,
      rand_state = sconst 0\<rparr>"
proof -
  let ?w = "CuckooFilter_new 1000 (sconst 0)"
  have r: "insert_round hash_one_bucket 0 0 2 20 [2, 1, 1, 1] 2 ?w =
    Inl \<lparr>NumBuckets = 65536, table = (\<lambda>i j. 0)(0 := (\<lambda>j. 0)(0 := 2)),
      hashmap = [(0, 0) \<mapsto> (2, 20)], num_items = 1,
      victim = \<lparr>index = 0, tag_hash = 0, used = False, key = 0, val = 0\<rparr>,
      rand_state = sconst 0\<rparr>"
    by (simp add: insert_round_def InsertTagToBucket_def ReadTag_def WriteTag_def
        add_to_bucket_at_slot_def CuckooFilter_new_def upperpower2_32768 Let_def)
  show ?thesis
    unfolding one_key_filter_def
    by (simp add: insert_def insert_impl_def Gen_one_bucket TagHash_2 insert_loop_0_Inl [OF r])
      (simp add: CuckooFilter_new_def Let_def)
qed

subsection \<open>What the filter-only test answers\<close>

text \<open>
  Claim C8, as stated: \<open>findinfilter\<close> returns true if and only if the Victim matches or
  a slot of a candidate bucket holds a tag equal to one of the key's four candidate tags.
  It fails: in \<open>one_key_filter\<close> slot 0 of bucket 0 holds tag 2, which is the candidate
  tag of key 513 for slot position 1, not 0, and \<open>findinfilter\<close> answers false.
\<close>

theorem findinfilter_spec_counterexample:
  "\<not> (fst (findinfilter hash_one_bucket 513 one_key_filter)
       = FilterOnlyTest_spec hash_one_bucket one_key_filter 513)"
  by (simp add: findinfilter_def FilterOnlyTest_spec_def Gen_one_bucket TagHash_513
      victim_match_def ReadTag_def one_key_filter_eq)

text \<open>
  Claim C8, amended. \<open>findinfilter\<close> returns true if and only if the Victim is used,
  holds the key and has one of the key's two candidate indices, or one of the two
  candidate buckets has a slot whose stored tag equals the key's candidate tag for that
  slot position.
\<close>

theorem findinfilter_iff:
  "fst (findinfilter P k w) =
     (let (i1, i2, tg, th) = GenerateIndexTagHash P w k
      in victim_match w k i1 i2 \<or>
         list_ex (\<lambda>slot. ReadTag w i1 slot = tg ! slot) [0, 1, 2, 3] \<or>
         list_ex (\<lambda>slot. ReadTag w i2 slot = tg ! slot) [0, 1, 2, 3])"
  by (auto simp: findinfilter_def Let_def split: prod.splits)

theorem findinfilter_iff_witness:
  "fst (findinfilter hash_one_bucket 513 one_key_filter) = False \<and>
   fst (findinfilter hash_one_bucket 258 one_key_filter) = True \<and>
   fst (findinfilter hash_two_buckets 5 full_bucket_filter) = True"
  using findinfilter_iff [of hash_one_bucket 513 one_key_filter]
    findinfilter_iff [of hash_one_bucket 258 one_key_filter]
    findinfilter_iff [of hash_two_buckets 5 full_bucket_filter]
  by (simp add: Gen_one_bucket Gen_two_buckets TagHash_513 TagHash_258 victim_match_def
      ReadTag_def one_key_filter_eq full_bucket_filter_def)

subsection \<open>The scan loops\<close>

lemma contains_slot_eq:
  "contains_slot w k tg i slot (f, fps) =
     (f \<or> hit_at w k tg i slot, if fp_at w k tg i slot then fps @ [(i, slot)] else fps)"
  by (auto simp: contains_slot_def hit_at_def fp_at_def Let_def)

lemma find_slot_eq:
  "find_slot w k tg i slot (f, v, fps) =
     (f \<or> hit_at w k tg i slot,
      if hit_at w k tg i slot then snd (read_from_bucket_at_slot w i slot (0, 0)) else v,
      if fp_at w k tg i slot then fps @ [(i, slot)] else fps)"
  by (auto simp: find_slot_def hit_at_def fp_at_def Let_def)

lemma erase_slot_eq:
  "\<not> hit_at w k tg i slot \<Longrightarrow>
   erase_slot k tg i slot (f, fps, w) =
     (f, if fp_at w k tg i slot then fps @ [(i, slot)] else fps, w)"
  by (auto simp: erase_slot_def hit_at_def fp_at_def Let_def)

lemma contains_scan:
  "foldl (\<lambda>st slot. contains_slot w k tg i slot st) (f, fps) xs =
     (f \<or> list_ex (hit_at w k tg i) xs, fps @ map (Pair i) (filter (fp_at w k tg i) xs))"
  by (induction xs arbitrary: f fps) (simp_all add: contains_slot_eq)

lemma find_scan:
  "foldl (\<lambda>st slot. find_slot w k tg i slot st) (f, v, fps) xs =
     (f \<or> list_ex (hit_at w k tg i) xs,
      foldl (\<lambda>v slot. if hit_at w k tg i slot
                       then snd (read_from_bucket_at_slot w i slot (0, 0)) else v) v xs,
      fps @ map (Pair i) (filter (fp_at w k tg i) xs))"
  by (induction xs arbitrary: f v fps) (simp_all add: find_slot_eq)

lemma find_scan_val:
  "\<not> list_ex (hit_at w k tg i) xs \<Longrightarrow>
   foldl (\<lambda>v slot. if hit_at w k tg i slot
                    then snd (read_from_bucket_at_slot w i slot (0, 0)) else v) v xs = v"
  by (induction xs arbitrary: v) simp_all

lemma erase_scan:
  "\<not> list_ex (hit_at w k tg i) xs \<Longrightarrow>
   foldl (\<lambda>st slot. erase_slot k tg i slot st) (f, fps, w) xs =
     (f, fps @ map (Pair i) (filter (fp_at w k tg i) xs), w)"
  by (induction xs arbitrary: f fps) (simp_all add: erase_slot_eq)

lemma contains_eq:
  "contains P k w =
     (if victim_holds P w k then (True, w)
      else (confirmed_hit P w k, repair_all P (false_positives_of P w k) w))"
proof -
  obtain i1 i2 tg th where g: "GenerateIndexTagHash P w k = (i1, i2, tg, th)"
    by (cases "GenerateIndexTagHash P w k") auto
  show ?thesis
    unfolding contains_def victim_holds_def confirmed_hit_def false_positives_of_def g
      Let_def prod.case contains_scan
    by simp
qed

lemma find_eq:
  "\<exists>v'. find P k v w =
     (if victim_holds P w k then (True, val (victim w), w)
      else (confirmed_hit P w k, v', repair_all P (false_positives_of P w k) w)) \<and>
     (\<not> confirmed_hit P w k \<longrightarrow> v' = v)"
proof -
  obtain i1 i2 tg th where g: "GenerateIndexTagHash P w k = (i1, i2, tg, th)"
    by (cases "GenerateIndexTagHash P w k") auto
  let ?xs = "[0, 1, 2, 3] :: nat list"
  let ?upd = "\<lambda>i v slot. if hit_at w k tg i slot
                          then snd (read_from_bucket_at_slot w i slot (0, 0)) else v"
  let ?v' = "foldl (?upd i2) (foldl (?upd i1) v ?xs) ?xs"
  have eq: "find P k v w =
     (if victim_holds P w k then (True, val (victim w), w)
      else (confirmed_hit P w k, ?v', repair_all P (false_positives_of P w k) w))"
    unfolding find_def victim_holds_def confirmed_hit_def false_positives_of_def g
      Let_def prod.case find_scan
    by simp
  have "\<not> confirmed_hit P w k \<longrightarrow> ?v' = v"
    unfolding confirmed_hit_def g Let_def prod.case
    using find_scan_val [of w k tg i1 ?xs v] find_scan_val [of w k tg i2 ?xs v]
    by (simp del: foldl.simps list_ex_Cons_iff)
  with eq show ?thesis by blast
qed

subsection \<open>What the repair routine leaves alone\<close>

lemma remove_false_positives_frame:
  "victim (remove_false_positives P i slot w) = victim w \<and>
   num_items (remove_false_positives P i slot w) = num_items w \<and>
   NumBuckets (remove_false_positives P i slot w) = NumBuckets w"
  by (simp add: remove_false_positives_def rand_def WriteTag_def add_to_bucket_at_slot_def
      del_from_bucket_at_slot_def Let_def split: prod.splits)

lemma repair_all_frame:
  "victim (repair_all P fps w) = victim w \<and>
   num_items (repair_all P fps w) = num_items w \<and>
   NumBuckets (repair_all P fps w) = NumBuckets w"
  by (induction P fps w rule: repair_all.induct) (simp_all add: remove_false_positives_frame)

lemma erase_absent:
  assumes "\<not> victim_holds P w k" and "\<not> confirmed_hit P w k"
  shows "erase P k w = (False, repair_all P (false_positives_of P w k) w)"
proof -
  obtain i1 i2 tg th where g: "GenerateIndexTagHash P w k = (i1, i2, tg, th)"
    by (cases "GenerateIndexTagHash P w k") auto
  let ?xs = "[0, 1, 2, 3] :: nat list"
  have h1: "\<not> list_ex (hit_at w k tg i1) ?xs" and h2: "\<not> list_ex (hit_at w k tg i2) ?xs"
    using assms(2) by (simp_all add: confirmed_hit_def g)
  have vm: "\<not> victim_match w k i1 i2"
    using assms(1) by (simp add: victim_holds_def g)
  show ?thesis
    unfolding erase_def false_positives_of_def g Let_def prod.case
      erase_scan [OF h1] erase_scan [OF h2]
    using vm by simp
qed

lemma erase_true_present:
  "fst (erase P k w) \<Longrightarrow> victim_holds P w k \<or> confirmed_hit P w k"
proof (rule ccontr)
  assume f: "fst (erase P k w)" and n: "\<not> (victim_holds P w k \<or> confirmed_hit P w k)"
  from n have "erase P k w = (False, repair_all P (false_positives_of P w k) w)"
    by (simp add: erase_absent)
  with f show False by simp
qed

subsection \<open>Lookups report confirmed hits only\<close>

lemma store_inv_hit:
  assumes "store_inv P w" and "hit_at w k (TagHash P hv) i slot" and "slot < 4"
  shows "\<exists>v. hashmap w (i, slot) = Some (k, v)"
proof -
  have nz: "table w i slot \<noteq> 0"
    using assms(2,3) TagHash_nonzero [of slot P hv] by (simp add: hit_at_def ReadTag_def)
  from assms(1) have "slot_ok P w i slot"
    unfolding store_inv_def by blast
  with nz obtain k' v' where e: "hashmap w (i, slot) = Some (k', v')"
    by (cases "hashmap w (i, slot)") (auto simp: slot_ok_def)
  with assms(2) have "k = k'" by (simp add: hit_at_def read_from_bucket_at_slot_def)
  with e show ?thesis by blast
qed

lemma confirmed_hit_stored:
  assumes "store_inv P w" and "confirmed_hit P w k"
  shows "\<exists>b s v. hashmap w (b, s) = Some (k, v)"
proof -
  obtain i1 i2 tg th where g: "GenerateIndexTagHash P w k = (i1, i2, tg, th)"
    by (cases "GenerateIndexTagHash P w k") auto
  then have tg: "tg = TagHash P (hasher P k)" by (simp add: GenerateIndexTagHash_tag)
  from assms(2) obtain i slot where "hit_at w k tg i slot" and "slot < 4"
    unfolding confirmed_hit_def g Let_def prod.case by auto
  then show ?thesis using store_inv_hit [OF assms(1), of k "hasher P k" i slot] tg by blast
qed

text \<open>
  What a lookup reports, read on the state it starts from: \<open>contains\<close> and \<open>find\<close>
  return true exactly when the Victim matches or the value store's entry at a
  tag-matching (bucket, slot) of a candidate bucket holds exactly the queried key. So in
  a state that satisfies the store's invariant, for a key that no entry of the value
  store holds and that is not the Victim's key, both return false and \<open>find\<close> leaves
  \<open>val\<close> as it was, whatever tags the candidate buckets hold. This is a statement about
  the entries of the store, not about the calls that were made: the repair routine can
  write an entry for a key that was never added (see the last section).
\<close>

lemma lookup_confirmed_hits_only:
  "fst (contains P k w) = (victim_holds P w k \<or> confirmed_hit P w k) \<and>
   fst (find P k v0 w) = (victim_holds P w k \<or> confirmed_hit P w k) \<and>
   (store_inv P w \<and> (\<forall>b s v. hashmap w (b, s) \<noteq> Some (k, v)) \<and>
    \<not> (used (victim w) \<and> key (victim w) = k) \<longrightarrow>
      fst (contains P k w) = False \<and> fst (find P k v0 w) = False \<and>
      fst (snd (find P k v0 w)) = v0)"
proof -
  obtain v' where f: "find P k v0 w =
     (if victim_holds P w k then (True, val (victim w), w)
      else (confirmed_hit P w k, v', repair_all P (false_positives_of P w k) w))"
    and v': "\<not> confirmed_hit P w k \<longrightarrow> v' = v0"
    using find_eq [of P k v0 w] by blast
  have c: "fst (contains P k w) = (victim_holds P w k \<or> confirmed_hit P w k)"
    by (simp add: contains_eq)
  have f1: "fst (find P k v0 w) = (victim_holds P w k \<or> confirmed_hit P w k)"
    by (simp add: f)
  have "fst (contains P k w) = False \<and> fst (find P k v0 w) = False \<and> fst (snd (find P k v0 w)) = v0"
    if inv: "store_inv P w" and absent: "\<forall>b s v. hashmap w (b, s) \<noteq> Some (k, v)"
      and nv: "\<not> (used (victim w) \<and> key (victim w) = k)"
  proof -
    have nh: "\<not> confirmed_hit P w k"
      using confirmed_hit_stored [OF inv, of k] absent by blast
    have nvh: "\<not> victim_holds P w k"
      using nv by (auto simp: victim_holds_def victim_match_def Let_def split: prod.splits)
    show ?thesis using nh nvh c f v' by simp
  qed
  with c f1 show ?thesis by blast
qed

lemma hasher_one_bucket: "hasher hash_one_bucket k = k"
  by (simp add: hash_one_bucket_def)

lemma store_inv_one_key_filter: "store_inv hash_one_bucket one_key_filter"
  unfolding store_inv_def slot_ok_def
  by (simp add: one_key_filter_eq TagHash_2 hasher_one_bucket)

lemma lookup_confirmed_hits_only_example:
  "store_inv hash_one_bucket one_key_filter \<and>
   (\<forall>b s v. hashmap one_key_filter (b, s) \<noteq> Some (258, v)) \<and>
   \<not> (used (victim one_key_filter) \<and> key (victim one_key_filter) = 258) \<and>
   ReadTag one_key_filter 0 0 = TagHash hash_one_bucket 258 ! 0 \<and>
   fst (findinfilter hash_one_bucket 258 one_key_filter) = True \<and>
   fst (contains hash_one_bucket 258 one_key_filter) = False \<and>
   fst (find hash_one_bucket 258 77 one_key_filter) = False \<and>
   fst (snd (find hash_one_bucket 258 77 one_key_filter)) = 77 \<and>
   fst (contains hash_one_bucket 2 one_key_filter) = True"
proof -
  have a: "\<forall>b s v. hashmap one_key_filter (b, s) \<noteq> Some (258, v)"
    by (simp add: one_key_filter_eq)
  have b: "\<not> (used (victim one_key_filter) \<and> key (victim one_key_filter) = 258)"
    by (simp add: one_key_filter_eq)
  have c: "ReadTag one_key_filter 0 0 = TagHash hash_one_bucket 258 ! 0"
    by (simp add: one_key_filter_eq TagHash_258 ReadTag_def)
  have d: "fst (findinfilter hash_one_bucket 258 one_key_filter) = True"
    by (simp add: findinfilter_def Gen_one_bucket TagHash_258 victim_match_def ReadTag_def
        one_key_filter_eq)
  have e: "confirmed_hit hash_one_bucket one_key_filter 2"
    by (simp add: confirmed_hit_def Gen_one_bucket TagHash_2 hit_at_def ReadTag_def
        read_from_bucket_at_slot_def one_key_filter_eq)
  have f: "fst (contains hash_one_bucket 258 one_key_filter) = False \<and>
      fst (find hash_one_bucket 258 77 one_key_filter) = False \<and>
      fst (snd (find hash_one_bucket 258 77 one_key_filter)) = 77"
    using lookup_confirmed_hits_only [of hash_one_bucket 258 one_key_filter 77]
      store_inv_one_key_filter a b
    by blast
  have g: "fst (contains hash_one_bucket 2 one_key_filter) = True"
    using lookup_confirmed_hits_only [of hash_one_bucket 2 one_key_filter 77] e by blast
  show ?thesis
    using store_inv_one_key_filter a b c d f g by blast
qed

subsection \<open>The store invariant is preserved\<close>

lemma slot_ok_cong:
  "table w' b s = table w b s \<Longrightarrow> hashmap w' (b, s) = hashmap w (b, s) \<Longrightarrow>
   slot_ok P w' b s = slot_ok P w b s"
  by (simp add: slot_ok_def split: option.splits)

lemma store_inv_cong:
  "table w' = table w \<Longrightarrow> hashmap w' = hashmap w \<Longrightarrow> store_inv P w' = store_inv P w"
  by (simp add: store_inv_def slot_ok_def split: option.splits)

lemma slot_ok_placed:
  "s < 4 \<Longrightarrow> hashmap w (b, s) = Some (k, v) \<Longrightarrow> table w b s = TagHash P (hasher P k) ! s \<Longrightarrow>
   slot_ok P w b s"
  by (simp add: slot_ok_def TagHash_nonzero)

lemma slot_ok_empty: "hashmap w (b, s) = None \<Longrightarrow> table w b s = 0 \<Longrightarrow> slot_ok P w b s"
  by (simp add: slot_ok_def)

lemma store_inv_initial: "store_inv P (CuckooFilter_new n g) \<and> victim_inv P (CuckooFilter_new n g)"
  by (simp add: store_inv_def slot_ok_def victim_inv_def CuckooFilter_new_def Let_def)

lemma find_empty_slot:
  "List.find (\<lambda>j. ReadTag w i j = 0) [0, 1, 2, 3] = Some j \<Longrightarrow> j < 4 \<and> table w i j = 0"
  by (auto simp: ReadTag_def split: if_splits)

text \<open>Writing a tag and the entry of its key at one address keeps the invariant.\<close>

lemma store_inv_place:
  assumes "store_inv P w" and "s < 4"
    and "table w' = (table w)(i := (table w i)(s := TagHash P (hasher P k) ! s))"
    and "hashmap w' = (hashmap w)((i, s) \<mapsto> (k, v))"
  shows "store_inv P w'"
  unfolding store_inv_def
proof (intro allI)
  fix b s'
  have old: "slot_ok P w b s'" using assms(1) by (simp add: store_inv_def)
  show "slot_ok P w' b s'"
  proof (cases "(b, s') = (i, s)")
    case True
    then show ?thesis using assms(2-4) by (simp add: slot_ok_def TagHash_nonzero)
  next
    case False
    then have "table w' b s' = table w b s'" and "hashmap w' (b, s') = hashmap w (b, s')"
      using assms(3,4) by auto
    then show ?thesis using old slot_ok_cong by blast
  qed
qed

lemma insert_round_inv:
  assumes "store_inv P w" and "curtag = TagHash P (hasher P curkey)"
  shows "case insert_round P count curindex curkey curval curtag curtaghash w of
           Inl w' \<Rightarrow> store_inv P w' \<and> victim w' = victim w \<and> NumBuckets w' = NumBuckets w
         | Inr (ci, ck, cv, ct, cth, w') \<Rightarrow>
             store_inv P w' \<and> victim w' = victim w \<and> NumBuckets w' = NumBuckets w \<and>
             ct = TagHash P (hasher P ck) \<and> cth = hasher P ck"
proof (cases "List.find (\<lambda>j. ReadTag w curindex j = 0) [0, 1, 2, 3]")
  case (Some j)
  then have j: "j < 4" using find_empty_slot by blast
  let ?w' = "(add_to_bucket_at_slot curindex j curkey curval (WriteTag curindex j (curtag ! j) w))
              \<lparr>num_items := num_items w + 1\<rparr>"
  have r: "insert_round P count curindex curkey curval curtag curtaghash w = Inl ?w'"
    using Some
    by (simp add: insert_round_def InsertTagToBucket_def Let_def add_to_bucket_at_slot_def
        WriteTag_def del: find.simps)
  have "store_inv P ?w'"
    by (rule store_inv_place [OF assms(1) j, of _ curindex curkey curval])
      (simp_all add: add_to_bucket_at_slot_def WriteTag_def assms(2))
  then show ?thesis unfolding r by (simp add: add_to_bucket_at_slot_def WriteTag_def)
next
  case None
  show ?thesis
  proof (cases "count > 0")
    case True
    let ?j = "shd (rand_state w) mod 4"
    let ?w1 = "WriteTag curindex ?j (curtag ! ?j) (w\<lparr>rand_state := stl (rand_state w)\<rparr>)"
    let ?old = "read_from_bucket_at_slot ?w1 curindex ?j (0, 0)"
    let ?w2 = "add_to_bucket_at_slot curindex ?j curkey curval ?w1"
    obtain i1 i2 tg th where g: "GenerateIndexTagHash P ?w2 (fst ?old) = (i1, i2, tg, th)"
      by (cases "GenerateIndexTagHash P ?w2 (fst ?old)") auto
    have r: "insert_round P count curindex curkey curval curtag curtaghash w =
        Inr (if curindex = i1 then i2 else i1, fst ?old, snd ?old, tg, th, ?w2)"
      using None True g
      by (simp add: insert_round_def InsertTagToBucket_def Let_def rand_def del: find.simps)
    have "store_inv P ?w2"
      by (rule store_inv_place [OF assms(1), of ?j _ curindex curkey curval])
        (simp_all add: add_to_bucket_at_slot_def WriteTag_def assms(2))
    then show ?thesis unfolding r using GenerateIndexTagHash_tag [OF g]
      by (simp add: add_to_bucket_at_slot_def WriteTag_def)
  next
    case False
    obtain i1 i2 tg th where g: "GenerateIndexTagHash P w curkey = (i1, i2, tg, th)"
      by (cases "GenerateIndexTagHash P w curkey") auto
    have r: "insert_round P count curindex curkey curval curtag curtaghash w =
        Inr (if curindex = i1 then i2 else i1, curkey, curval, tg, th, w)"
      using None False g
      by (simp add: insert_round_def InsertTagToBucket_def Let_def del: find.simps)
    show ?thesis unfolding r using GenerateIndexTagHash_tag [OF g] assms(1) by simp
  qed
qed

lemma insert_loop_Inl:
  "count < kMaxCuckooCount \<Longrightarrow>
   insert_round P count curindex curkey curval curtag curtaghash w = Inl w' \<Longrightarrow>
   insert_loop P count curindex curkey curval curtag curtaghash w = (True, count, w')"
  by (subst insert_loop.simps) simp

lemma insert_loop_Inr:
  "count < kMaxCuckooCount \<Longrightarrow>
   insert_round P count curindex curkey curval curtag curtaghash w =
     Inr (ci, ck, cv, ct, cth, w') \<Longrightarrow>
   insert_loop P count curindex curkey curval curtag curtaghash w =
     insert_loop P (count + 1) ci ck cv ct cth w'"
  by (subst insert_loop.simps) simp

lemma insert_loop_end:
  "\<not> count < kMaxCuckooCount \<Longrightarrow>
   insert_loop P count curindex curkey curval curtag curtaghash w =
     (True, count,
      w\<lparr>victim := \<lparr>index = curindex, tag_hash = curtaghash, used = True, key = curkey,
                    val = curval\<rparr>\<rparr>)"
  by (subst insert_loop.simps) simp

lemma insert_loop_inv:
  "store_inv P w \<Longrightarrow> victim_inv P w \<Longrightarrow> curtag = TagHash P (hasher P curkey) \<Longrightarrow>
   curtaghash = hasher P curkey \<Longrightarrow>
   store_inv P (snd (snd (insert_loop P count curindex curkey curval curtag curtaghash w))) \<and>
   victim_inv P (snd (snd (insert_loop P count curindex curkey curval curtag curtaghash w))) \<and>
   NumBuckets (snd (snd (insert_loop P count curindex curkey curval curtag curtaghash w))) = NumBuckets w"
proof (induction P count curindex curkey curval curtag curtaghash w rule: insert_loop.induct)
  case (1 P count curindex curkey curval curtag curtaghash w)
  note round = insert_round_inv [OF "1.prems"(1) "1.prems"(3), of count curindex curval curtaghash]
  show ?case
  proof (cases "count < kMaxCuckooCount")
    case True
    show ?thesis
    proof (cases "insert_round P count curindex curkey curval curtag curtaghash w")
      case (Inl w')
      with round have "store_inv P w'" and "victim w' = victim w" and "NumBuckets w' = NumBuckets w"
        by simp_all
      moreover from this "1.prems"(2) have "victim_inv P w'" by (simp add: victim_inv_def)
      ultimately show ?thesis unfolding insert_loop_Inl [OF True Inl] by simp
    next
      case (Inr st)
      obtain ci ck cv ct cth w' where st: "st = (ci, ck, cv, ct, cth, w')" by (cases st) auto
      note r = Inr [unfolded st]
      from round r have a: "store_inv P w'" and b: "victim w' = victim w"
        and nb: "NumBuckets w' = NumBuckets w"
        and c: "ct = TagHash P (hasher P ck)" and d: "cth = hasher P ck"
        by simp_all
      from b "1.prems"(2) have e: "victim_inv P w'" by (simp add: victim_inv_def)
      have ih: "store_inv P (snd (snd (insert_loop P (count + 1) ci ck cv ct cth w'))) \<and>
         victim_inv P (snd (snd (insert_loop P (count + 1) ci ck cv ct cth w'))) \<and>
         NumBuckets (snd (snd (insert_loop P (count + 1) ci ck cv ct cth w'))) = NumBuckets w'"
        by (rule "1.IH" [OF True r refl refl refl refl refl a e c d])
      show ?thesis unfolding insert_loop_Inr [OF True r] using ih nb by simp
    qed
  next
    case False
    have "store_inv P (w\<lparr>victim := \<lparr>index = curindex, tag_hash = curtaghash, used = True,
        key = curkey, val = curval\<rparr>\<rparr>) = store_inv P w"
      by (rule store_inv_cong) simp_all
    with "1.prems"(1) have "store_inv P (w\<lparr>victim := \<lparr>index = curindex, tag_hash = curtaghash,
        used = True, key = curkey, val = curval\<rparr>\<rparr>)"
      by blast
    then show ?thesis unfolding insert_loop_end [OF False] using "1.prems"(4)
      by (simp add: victim_inv_def)
  qed
qed

lemma remove_false_positives_inv:
  assumes "store_inv P w" and "slot < 4"
  shows "store_inv P (remove_false_positives P i slot w)"
proof -
  let ?w0 = "w\<lparr>rand_state := stl (rand_state w)\<rparr>"
  let ?r = "shd (rand_state w) mod 3"
  let ?n = "if ?r = slot then 3 else ?r"
  let ?kvs = "read_from_bucket_at_slot ?w0 i slot (0, 0)"
  let ?kvn = "read_from_bucket_at_slot ?w0 i ?n (0, 0)"
  have n: "?n < 4" and ne: "?n \<noteq> slot" by auto
  have "store_inv P ?w0 = store_inv P w" by (rule store_inv_cong) simp_all
  with assms(1) have inv0: "store_inv P ?w0" by blast
  show ?thesis
  proof (cases "ReadTag ?w0 i ?n = 0")
    case True
    let ?w1 = "del_from_bucket_at_slot i slot (WriteTag i slot 0 ?w0)"
    have eq: "remove_false_positives P i slot w =
        add_to_bucket_at_slot i ?n (fst ?kvs) (snd ?kvs)
          (del_from_bucket_at_slot i slot
            (WriteTag i ?n (TagHash P (hasher P (fst ?kvs)) ! ?n) (WriteTag i slot 0 ?w0)))"
      using True
      by (simp add: remove_false_positives_def rand_def Let_def GenerateIndexTagHash_def
          split: prod.splits)
    have inv1: "store_inv P ?w1"
      unfolding store_inv_def
    proof (intro allI)
      fix b s
      have old: "slot_ok P ?w0 b s" using inv0 by (simp add: store_inv_def)
      show "slot_ok P ?w1 b s"
      proof (cases "(b, s) = (i, slot)")
        case True
        then show ?thesis by (simp add: slot_ok_def del_from_bucket_at_slot_def WriteTag_def)
      next
        case False
        then have "table ?w1 b s = table ?w0 b s" and "hashmap ?w1 (b, s) = hashmap ?w0 (b, s)"
          by (auto simp: del_from_bucket_at_slot_def WriteTag_def)
        then show ?thesis using old slot_ok_cong by blast
      qed
    qed
    show ?thesis unfolding eq
      by (rule store_inv_place [OF inv1 n, of _ i "fst ?kvs" "snd ?kvs"])
        (auto simp: add_to_bucket_at_slot_def del_from_bucket_at_slot_def WriteTag_def)
  next
    case False
    let ?w1 = "add_to_bucket_at_slot i slot (fst ?kvn) (snd ?kvn)
                 (WriteTag i slot (TagHash P (hasher P (fst ?kvn)) ! slot) ?w0)"
    have eq: "remove_false_positives P i slot w =
        add_to_bucket_at_slot i ?n (fst ?kvs) (snd ?kvs)
          (add_to_bucket_at_slot i slot (fst ?kvn) (snd ?kvn)
            (WriteTag i ?n (TagHash P (hasher P (fst ?kvs)) ! ?n)
              (WriteTag i slot (TagHash P (hasher P (fst ?kvn)) ! slot) ?w0)))"
      using False
      by (simp add: remove_false_positives_def rand_def Let_def GenerateIndexTagHash_def
          split: prod.splits)
    have inv1: "store_inv P ?w1"
      by (rule store_inv_place [OF inv0 assms(2), of _ i "fst ?kvn" "snd ?kvn"])
        (simp_all add: add_to_bucket_at_slot_def WriteTag_def)
    show ?thesis unfolding eq
      by (rule store_inv_place [OF inv1 n, of _ i "fst ?kvs" "snd ?kvs"])
        (auto simp: add_to_bucket_at_slot_def WriteTag_def)
  qed
qed

lemma repair_all_inv:
  "store_inv P w \<Longrightarrow> \<forall>(i, slot) \<in> set fps. slot < 4 \<Longrightarrow> store_inv P (repair_all P fps w)"
  by (induction P fps w rule: repair_all.induct) (simp_all add: remove_false_positives_inv)

lemma filtered_slots: "\<forall>(i, slot) \<in> set (map (Pair j) (filter p xs)). slot \<in> set xs"
  by auto

lemma false_positives_of_slots: "\<forall>(i, slot) \<in> set (false_positives_of P w k). slot < 4"
proof -
  obtain i1 i2 tg th where g: "GenerateIndexTagHash P w k = (i1, i2, tg, th)"
    by (cases "GenerateIndexTagHash P w k") auto
  let ?xs = "[0, 1, 2, 3] :: nat list"
  have "\<forall>slot \<in> set ?xs. slot < 4" by simp
  with filtered_slots [of i1 "fp_at w k tg i1" ?xs] filtered_slots [of i2 "fp_at w k tg i2" ?xs]
  have "\<forall>(i, slot) \<in> set (map (Pair i1) (filter (fp_at w k tg i1) ?xs) @
      map (Pair i2) (filter (fp_at w k tg i2) ?xs)). slot < 4"
    unfolding set_append by blast
  then show ?thesis unfolding false_positives_of_def g Let_def prod.case .
qed

lemma erase_slot_inv:
  assumes "store_inv P w" and "slot < 4" and "\<forall>(i, slot) \<in> set fps. slot < 4"
  shows "case erase_slot k tg i slot (f, fps, w) of
           (f', fps', w') \<Rightarrow> store_inv P w' \<and> (\<forall>(i, slot) \<in> set fps'. slot < 4) \<and>
             victim w' = victim w \<and> NumBuckets w' = NumBuckets w \<and> num_items w' = num_items w"
proof -
  let ?w1 = "del_from_bucket_at_slot i slot (WriteTag i slot 0 w)"
  have "store_inv P ?w1"
    unfolding store_inv_def
  proof (intro allI)
    fix b s
    have old: "slot_ok P w b s" using assms(1) by (simp add: store_inv_def)
    show "slot_ok P ?w1 b s"
    proof (cases "(b, s) = (i, slot)")
      case True
      then show ?thesis by (simp add: slot_ok_def del_from_bucket_at_slot_def WriteTag_def)
    next
      case False
      then have "table ?w1 b s = table w b s" and "hashmap ?w1 (b, s) = hashmap w (b, s)"
        by (auto simp: del_from_bucket_at_slot_def WriteTag_def)
      then show ?thesis using old slot_ok_cong by blast
    qed
  qed
  then show ?thesis using assms
    by (auto simp: erase_slot_def Let_def del_from_bucket_at_slot_def WriteTag_def)
qed

lemma erase_scan_inv:
  "store_inv P w \<Longrightarrow> \<forall>slot \<in> set xs. slot < 4 \<Longrightarrow> \<forall>(i, slot) \<in> set fps. slot < 4 \<Longrightarrow>
   (case foldl (\<lambda>st slot. erase_slot k tg i slot st) (f, fps, w) xs of
      (f', fps', w') \<Rightarrow> store_inv P w' \<and> (\<forall>(i, slot) \<in> set fps'. slot < 4) \<and>
        victim w' = victim w \<and> NumBuckets w' = NumBuckets w \<and> num_items w' = num_items w)"
proof (induction xs arbitrary: f fps w)
  case Nil
  then show ?case by simp
next
  case (Cons x xs)
  obtain f1 fps1 w1 where s: "erase_slot k tg i x (f, fps, w) = (f1, fps1, w1)"
    by (cases "erase_slot k tg i x (f, fps, w)") auto
  from erase_slot_inv [of P w x fps k tg i f] Cons.prems s
  have a: "store_inv P w1" and b: "\<forall>(i, slot) \<in> set fps1. slot < 4"
    and c: "victim w1 = victim w" "NumBuckets w1 = NumBuckets w" "num_items w1 = num_items w"
    by auto
  from Cons.prems have d: "\<forall>slot \<in> set xs. slot < 4" by simp
  from Cons.IH [OF a d b, of f1] c s show ?case by (auto split: prod.splits)
qed

lemma erase_eq:
  "erase P k w =
     (if victim_holds P w k then (True, w\<lparr>victim := (victim w)\<lparr>used := False\<rparr>\<rparr>)
      else
        (let (found, w') = erase_scanned P k w in
         if \<not> found then (False, w')
         else if used (victim w') then
           (True, snd (insert_impl P (key (victim w')) (val (victim w')) (index (victim w'))
                         (TagHash P (tag_hash (victim w'))) (tag_hash (victim w'))
                         (w'\<lparr>victim := (victim w')\<lparr>used := False\<rparr>\<rparr>)))
         else (True, w')))"
proof -
  obtain i1 i2 tg th where g: "GenerateIndexTagHash P w k = (i1, i2, tg, th)"
    by (cases "GenerateIndexTagHash P w k") auto
  let ?xs = "[0, 1, 2, 3] :: nat list"
  obtain f fps w2 where s:
    "foldl (\<lambda>st slot. erase_slot k tg i2 slot st)
       (foldl (\<lambda>st slot. erase_slot k tg i1 slot st) (False, [], w) ?xs) ?xs = (f, fps, w2)"
    using prod_cases3 by blast
  show ?thesis
  proof (cases "victim_match w k i1 i2")
    case True
    then show ?thesis by (simp add: erase_def victim_holds_def g)
  next
    case False
    then have vm: "victim_match w k i1 i2 = False" by simp
    show ?thesis
      unfolding erase_def erase_scanned_def victim_holds_def g Let_def prod.case vm if_False s
      by (simp split: prod.splits)
  qed
qed

lemma erase_scanned_inv:
  assumes "store_inv P w"
  shows "store_inv P (snd (erase_scanned P k w)) \<and>
         victim (snd (erase_scanned P k w)) = victim w \<and>
         NumBuckets (snd (erase_scanned P k w)) = NumBuckets w \<and>
         num_items (snd (erase_scanned P k w)) = num_items w"
proof -
  obtain i1 i2 tg th where g: "GenerateIndexTagHash P w k = (i1, i2, tg, th)"
    by (cases "GenerateIndexTagHash P w k") auto
  let ?xs = "[0, 1, 2, 3] :: nat list"
  have xs: "\<forall>slot \<in> set ?xs. slot < 4" by simp
  obtain f1 fps1 w1 where s1:
    "foldl (\<lambda>st slot. erase_slot k tg i1 slot st) (False, [], w) ?xs = (f1, fps1, w1)"
    using prod_cases3 by blast
  obtain f2 fps2 w2 where s2:
    "foldl (\<lambda>st slot. erase_slot k tg i2 slot st) (f1, fps1, w1) ?xs = (f2, fps2, w2)"
    using prod_cases3 by blast
  have e: "\<forall>(i, slot) \<in> set ([] :: (nat \<times> nat) list). slot < 4" by simp
  from erase_scan_inv [OF assms xs e, of k tg i1 False] s1
  have a1: "store_inv P w1" and b1: "\<forall>(i, slot) \<in> set fps1. slot < 4"
    and c1: "victim w1 = victim w" "NumBuckets w1 = NumBuckets w" "num_items w1 = num_items w"
    by auto
  from erase_scan_inv [OF a1 xs b1, of k tg i2 f1] s2
  have a2: "store_inv P w2" and b2: "\<forall>(i, slot) \<in> set fps2. slot < 4"
    and c2: "victim w2 = victim w1" "NumBuckets w2 = NumBuckets w1" "num_items w2 = num_items w1"
    by auto
  have r: "erase_scanned P k w = (f2, repair_all P fps2 w2)"
    unfolding erase_scanned_def g Let_def prod.case s1 s2 by simp
  show ?thesis
    unfolding r using repair_all_inv [OF a2 b2] repair_all_frame [of P fps2 w2] c1 c2 by simp
qed

lemma insert_impl_inv:
  assumes "store_inv P w" and "victim_inv P w"
  shows "store_inv P (snd (insert_impl P k v i (TagHash P (hasher P k)) (hasher P k) w)) \<and>
         victim_inv P (snd (insert_impl P k v i (TagHash P (hasher P k)) (hasher P k) w)) \<and>
         NumBuckets (snd (insert_impl P k v i (TagHash P (hasher P k)) (hasher P k) w)) = NumBuckets w"
  using insert_loop_inv [OF assms refl refl, of 0 i k v]
  by (auto simp: insert_impl_def split: prod.splits)

lemma insert_inv:
  assumes "store_inv P w" and "victim_inv P w"
  shows "store_inv P (snd (insert P k v w)) \<and> victim_inv P (snd (insert P k v w)) \<and>
         NumBuckets (snd (insert P k v w)) = NumBuckets w"
proof -
  obtain i1 i2 tg th where g: "GenerateIndexTagHash P w k = (i1, i2, tg, th)"
    by (cases "GenerateIndexTagHash P w k") auto
  from GenerateIndexTagHash_tag [OF g] have t: "tg = TagHash P (hasher P k)" "th = hasher P k"
    by simp_all
  show ?thesis
    using assms insert_impl_inv [OF assms, of k v i1]
    by (simp add: insert_def g t)
qed

lemma contains_inv:
  assumes "store_inv P w" and "victim_inv P w"
  shows "store_inv P (snd (contains P k w)) \<and> victim_inv P (snd (contains P k w)) \<and>
         NumBuckets (snd (contains P k w)) = NumBuckets w"
  using assms repair_all_inv [OF assms(1) false_positives_of_slots [of P w k]]
    repair_all_frame [of P "false_positives_of P w k" w]
  by (simp add: contains_eq victim_inv_def)

lemma find_inv:
  assumes "store_inv P w" and "victim_inv P w"
  shows "store_inv P (snd (snd (find P k v w))) \<and> victim_inv P (snd (snd (find P k v w))) \<and>
         NumBuckets (snd (snd (find P k v w))) = NumBuckets w"
proof -
  obtain v' where f: "find P k v w =
     (if victim_holds P w k then (True, val (victim w), w)
      else (confirmed_hit P w k, v', repair_all P (false_positives_of P w k) w))"
    using find_eq [of P k v w] by blast
  show ?thesis
    using assms repair_all_inv [OF assms(1) false_positives_of_slots [of P w k]]
      repair_all_frame [of P "false_positives_of P w k" w]
    by (simp add: f victim_inv_def)
qed

lemma erase_inv:
  assumes "store_inv P w" and "victim_inv P w"
  shows "store_inv P (snd (erase P k w)) \<and> victim_inv P (snd (erase P k w)) \<and>
         NumBuckets (snd (erase P k w)) = NumBuckets w"
proof (cases "victim_holds P w k")
  case True
  have "store_inv P (w\<lparr>victim := (victim w)\<lparr>used := False\<rparr>\<rparr>) = store_inv P w"
    by (rule store_inv_cong) simp_all
  with True assms(1) show ?thesis by (simp add: erase_eq victim_inv_def)
next
  case False
  obtain f w' where s: "erase_scanned P k w = (f, w')" by (cases "erase_scanned P k w") auto
  from erase_scanned_inv [OF assms(1), of k] s
  have a: "store_inv P w'" and b: "victim w' = victim w" and c: "NumBuckets w' = NumBuckets w"
    by simp_all
  from b assms(2) have vi: "victim_inv P w'" by (simp add: victim_inv_def)
  show ?thesis
  proof (cases "f \<and> used (victim w')")
    case True
    let ?w0 = "w'\<lparr>victim := (victim w')\<lparr>used := False\<rparr>\<rparr>"
    have "store_inv P ?w0 = store_inv P w'" by (rule store_inv_cong) simp_all
    with a have a0: "store_inv P ?w0" by blast
    have v0: "victim_inv P ?w0" by (simp add: victim_inv_def)
    from True vi have th: "tag_hash (victim w') = hasher P (key (victim w'))"
      by (simp add: victim_inv_def)
    from insert_impl_inv [OF a0 v0, of "key (victim w')" "val (victim w')" "index (victim w')"]
    show ?thesis using False True c by (simp add: erase_eq s th)
  next
    case no: False
    then show ?thesis using False a vi c by (auto simp: erase_eq s)
  qed
qed

text \<open>
  Claim C3. Every operation (\<open>insert\<close>, \<open>find\<close>, \<open>contains\<close>, \<open>erase\<close>, and the repair
  routine \<open>remove_false_positives\<close> they call on a slot) preserves the invariant of the
  value store: the store has an entry at \<open>(b, s)\<close> if and only if the table's slot
  \<open>(b, s)\<close> holds a non-zero tag, and the tag stored there is the candidate tag of the
  entry's key for slot position \<open>s\<close>. The operations are entered in a state where a
  Victim in use carries the tag hash of its key, as it does in every state the
  operations themselves produce, the state the constructor returns included.
\<close>

theorem store_inv_preserved:
  assumes "store_inv P w" and "victim_inv P w"
  shows "store_inv P (snd (insert P k v w)) \<and> victim_inv P (snd (insert P k v w)) \<and>
         store_inv P (snd (snd (find P k v w))) \<and> victim_inv P (snd (snd (find P k v w))) \<and>
         store_inv P (snd (contains P k w)) \<and> victim_inv P (snd (contains P k w)) \<and>
         store_inv P (snd (erase P k w)) \<and> victim_inv P (snd (erase P k w)) \<and>
         (slot < 4 \<longrightarrow> store_inv P (remove_false_positives P i slot w) \<and>
                       victim_inv P (remove_false_positives P i slot w)) \<and>
         store_inv P (CuckooFilter_new n g) \<and> victim_inv P (CuckooFilter_new n g)"
  using insert_inv [OF assms, of k v] find_inv [OF assms, of k v] contains_inv [OF assms, of k]
    erase_inv [OF assms, of k] remove_false_positives_inv [OF assms(1), of slot i]
    remove_false_positives_frame [of P i slot w] assms(2) store_inv_initial [of P n g]
  by (simp add: victim_inv_def)
lemma victim_inv_one_key_filter: "victim_inv hash_one_bucket one_key_filter"
  by (simp add: victim_inv_def one_key_filter_eq)

theorem store_inv_preserved_witness:
  "store_inv hash_one_bucket one_key_filter \<and> victim_inv hash_one_bucket one_key_filter \<and>
   store_inv hash_one_bucket (snd (insert hash_one_bucket 258 7 one_key_filter)) \<and>
   store_inv hash_one_bucket (snd (snd (find hash_one_bucket 258 7 one_key_filter))) \<and>
   store_inv hash_one_bucket (snd (contains hash_one_bucket 258 one_key_filter)) \<and>
   store_inv hash_one_bucket (snd (erase hash_one_bucket 258 one_key_filter)) \<and>
   store_inv hash_one_bucket (remove_false_positives hash_one_bucket 0 0 one_key_filter) \<and>
   store_inv hash_one_bucket (CuckooFilter_new 1000 (sconst 0))"
proof -
  note t = store_inv_preserved [OF store_inv_one_key_filter victim_inv_one_key_filter,
      of 258 7 0 0 1000 "sconst 0"]
  have "(0 :: nat) < 4" by simp
  with t show ?thesis using store_inv_one_key_filter victim_inv_one_key_filter by blast
qed

subsection \<open>The eviction chain is bounded\<close>

lemma insert_loop_chain:
  "count + n = kMaxCuckooCount \<Longrightarrow>
   insert_loop P count curindex curkey curval curtag curtaghash w =
     (case eviction_chain P n count (curindex, curkey, curval, curtag, curtaghash, w) of
        Inl (c, w') \<Rightarrow> (True, c, w')
      | Inr (ci, ck, cv, ct, cth, w') \<Rightarrow>
          (True, kMaxCuckooCount,
           w'\<lparr>victim := \<lparr>index = ci, tag_hash = cth, used = True, key = ck, val = cv\<rparr>\<rparr>))"
proof (induction n arbitrary: count curindex curkey curval curtag curtaghash w)
  case 0
  then have "\<not> count < kMaxCuckooCount" by simp
  from insert_loop_end [OF this] 0 show ?case by simp
next
  case (Suc n)
  then have lt: "count < kMaxCuckooCount" by simp
  show ?case
  proof (cases "insert_round P count curindex curkey curval curtag curtaghash w")
    case (Inl w')
    from insert_loop_Inl [OF lt Inl] Inl show ?thesis by simp
  next
    case (Inr st)
    obtain ci ck cv ct cth w' where st: "st = (ci, ck, cv, ct, cth, w')" by (cases st) auto
    note r = Inr [unfolded st]
    from Suc.prems have "(count + 1) + n = kMaxCuckooCount" by simp
    from Suc.IH [OF this, of ci ck cv ct cth w'] insert_loop_Inr [OF lt r] r
    show ?thesis by simp
  qed
qed

lemma eviction_chain_count:
  "eviction_chain P n count st = Inl (c, w') \<Longrightarrow> count \<le> c \<and> c < count + n"
proof (induction n arbitrary: count st)
  case 0
  then show ?case by simp
next
  case (Suc n)
  obtain ci ck cv ct cth w where st: "st = (ci, ck, cv, ct, cth, w)" by (cases st) auto
  show ?case
  proof (cases "insert_round P count ci ck cv ct cth w")
    case (Inl w1)
    with Suc.prems st show ?thesis by simp
  next
    case (Inr st')
    with Suc.prems st have "eviction_chain P n (Suc count) st' = Inl (c, w')" by simp
    from Suc.IH [OF this] show ?thesis by simp
  qed
qed

lemma insert_impl_chain:
  "insert_impl P k v i tg th w =
     (case eviction_chain P 500 0 (i, k, v, tg, th, w) of
        Inl (c, w') \<Rightarrow> (True, w')
      | Inr (curindex, curkey, curval, curtag, curtaghash, w') \<Rightarrow>
          (True, w'\<lparr>victim := \<lparr>index = curindex, tag_hash = curtaghash, used = True,
                               key = curkey, val = curval\<rparr>\<rparr>))"
proof -
  have "0 + 500 = kMaxCuckooCount" by (simp add: kMaxCuckooCount_def)
  from insert_loop_chain [OF this, of P i k v tg th w] show ?thesis
    by (simp add: insert_impl_def split: sum.splits prod.splits)
qed

text \<open>
  Claim C5. Every Add terminates (\<open>insert_loop\<close> is a total function; its recursion
  is on \<open>kMaxCuckooCount - count\<close>): \<open>insert_impl\<close> is the eviction chain of at most 500
  insertion attempts. If one of them finds an empty slot the call returns true from
  that attempt, whose number is below 500; if the bound is reached, the still-displaced
  (key, value, bucket, tag hash) is stored into the Victim, the Victim is marked used,
  and the call returns true.
\<close>

theorem insert_impl_bounded:
  "kMaxCuckooCount = 500 \<and>
   insert_impl P k v i tg th w =
     (case eviction_chain P 500 0 (i, k, v, tg, th, w) of
        Inl (c, w') \<Rightarrow> (True, w')
      | Inr (curindex, curkey, curval, curtag, curtaghash, w') \<Rightarrow>
          (True, w'\<lparr>victim := \<lparr>index = curindex, tag_hash = curtaghash, used = True,
                               key = curkey, val = curval\<rparr>\<rparr>)) \<and>
   fst (snd (insert_loop P 0 i k v tg th w)) \<le> 500 \<and>
   (fst (snd (insert_loop P 0 i k v tg th w)) < 500) =
     (\<exists>c w'. eviction_chain P 500 0 (i, k, v, tg, th, w) = Inl (c, w') \<and> c < 500)"
proof -
  have K: "kMaxCuckooCount = 500" by (simp add: kMaxCuckooCount_def)
  have "0 + 500 = kMaxCuckooCount" by (simp add: K)
  note l = insert_loop_chain [OF this, of P i k v tg th w]
  show ?thesis
  proof (cases "eviction_chain P 500 0 (i, k, v, tg, th, w)")
    case (Inl a)
    obtain c w' where a: "a = (c, w')" by (cases a) auto
    from eviction_chain_count [OF Inl [unfolded a]] have "c < 500" by simp
    then show ?thesis using l Inl a K insert_impl_chain [of P k v i tg th w] by simp
  next
    case (Inr st)
    obtain ci ck cv ct cth w' where st: "st = (ci, ck, cv, ct, cth, w')" by (cases st) auto
    show ?thesis using l Inr st K insert_impl_chain [of P k v i tg th w] by simp
  qed
qed

subsection \<open>A chain that runs out\<close>

lemma hasher_two_buckets: "hasher hash_two_buckets k = k"
  by (simp add: hash_two_buckets_def)

lemma bucket_zero_full_slot:
  "bucket_zero_full w \<Longrightarrow> s < 4 \<Longrightarrow>
   table w 0 s \<noteq> 0 \<and> (\<exists>k v. hashmap w (0, s) = Some (k, v) \<and> k \<noteq> 100)"
proof -
  assume f: "bucket_zero_full w" and s: "s < 4"
  from s have "s = 0 \<or> s = 1 \<or> s = 2 \<or> s = 3" by arith
  with f show ?thesis by (auto simp: bucket_zero_full_def)
qed

lemma bucket_zero_full_no_empty:
  "bucket_zero_full w \<Longrightarrow> List.find (\<lambda>j. ReadTag w 0 j = 0) [0, 1, 2, 3] = None"
  by (simp add: bucket_zero_full_def ReadTag_def)

lemma bucket_zero_full_place:
  assumes "bucket_zero_full w" and "j < 4" and "t \<noteq> 0" and "k \<noteq> 100"
    and "NumBuckets w' = NumBuckets w"
    and "table w' = (table w)(0 := (table w 0)(j := t))"
    and "hashmap w' = (hashmap w)((0, j) \<mapsto> (k, v))"
  shows "bucket_zero_full w'"
  using assms by (auto simp: bucket_zero_full_def)

lemma insert_round_full:
  assumes "bucket_zero_full w" and "ck \<noteq> 100" and "ct = TagHash hash_two_buckets hv"
  shows "\<exists>ck' cv' w'. insert_round hash_two_buckets count 0 ck cv ct cth w =
            Inr (0, ck', cv', TagHash hash_two_buckets ck', ck', w') \<and>
          bucket_zero_full w' \<and> ck' \<noteq> 100"
proof (cases "count > 0")
  case True
  let ?j = "shd (rand_state w) mod 4"
  let ?w1 = "WriteTag 0 ?j (ct ! ?j) (w\<lparr>rand_state := stl (rand_state w)\<rparr>)"
  let ?w2 = "add_to_bucket_at_slot 0 ?j ck cv ?w1"
  have j: "?j < 4" by simp
  from bucket_zero_full_slot [OF assms(1) j] obtain k' v' where
    old: "hashmap w (0, ?j) = Some (k', v')" and k': "k' \<noteq> 100" by blast
  have rd: "read_from_bucket_at_slot ?w1 0 ?j (0, 0) = (k', v')"
    using old by (simp add: read_from_bucket_at_slot_def WriteTag_def)
  have nb: "NumBuckets ?w2 = 65536"
    using assms(1) by (simp add: bucket_zero_full_def add_to_bucket_at_slot_def WriteTag_def)
  have g: "GenerateIndexTagHash hash_two_buckets ?w2 k' = (0, 0, TagHash hash_two_buckets k', k')"
    using Gen_two_buckets [OF nb, of k'] k' by simp
  have r: "insert_round hash_two_buckets count 0 ck cv ct cth w =
      Inr (0, k', v', TagHash hash_two_buckets k', k', ?w2)"
    using True bucket_zero_full_no_empty [OF assms(1)]
    unfolding insert_round_def InsertTagToBucket_def Let_def rand_def prod.case
    by (simp add: rd g del: find.simps)
  have "bucket_zero_full ?w2"
    by (rule bucket_zero_full_place [OF assms(1) j _ assms(2), of "ct ! ?j" _ cv])
      (simp_all add: assms(3) TagHash_nonzero add_to_bucket_at_slot_def WriteTag_def)
  with r k' show ?thesis by blast
next
  case False
  have nb: "NumBuckets w = 65536" using assms(1) by (simp add: bucket_zero_full_def)
  have g: "GenerateIndexTagHash hash_two_buckets w ck = (0, 0, TagHash hash_two_buckets ck, ck)"
    using Gen_two_buckets [OF nb, of ck] assms(2) by simp
  have "insert_round hash_two_buckets count 0 ck cv ct cth w =
      Inr (0, ck, cv, TagHash hash_two_buckets ck, ck, w)"
    using False bucket_zero_full_no_empty [OF assms(1)]
    unfolding insert_round_def InsertTagToBucket_def Let_def prod.case
    by (simp add: g del: find.simps)
  with assms show ?thesis by blast
qed

lemma eviction_chain_full:
  "bucket_zero_full w \<Longrightarrow> ck \<noteq> 100 \<Longrightarrow> ct = TagHash hash_two_buckets hv \<Longrightarrow>
   \<exists>ck' cv' ct' cth' w'.
     eviction_chain hash_two_buckets n count (0, ck, cv, ct, cth, w) =
       Inr (0, ck', cv', ct', cth', w') \<and> bucket_zero_full w'"
proof (induction n arbitrary: count ck cv ct cth w hv)
  case 0
  then show ?case by simp
next
  case (Suc n)
  from insert_round_full [OF Suc.prems, of count cv cth] obtain ck' cv' w' where
    r: "insert_round hash_two_buckets count 0 ck cv ct cth w =
            Inr (0, ck', cv', TagHash hash_two_buckets ck', ck', w')"
    and f: "bucket_zero_full w'" and k: "ck' \<noteq> 100" by blast
  from Suc.IH [OF f k refl, of "Suc count" cv' ck'] r show ?case by simp
qed

lemma insert_impl_full:
  assumes "bucket_zero_full w" and "ck \<noteq> 100"
  shows "used (victim (snd (insert_impl hash_two_buckets ck cv 0 (TagHash hash_two_buckets hv) cth w)))"
proof -
  have "\<exists>ck' cv' ct' cth' w'.
      eviction_chain hash_two_buckets 500 0 (0, ck, cv, TagHash hash_two_buckets hv, cth, w) =
        Inr (0, ck', cv', ct', cth', w') \<and> bucket_zero_full w'"
    by (rule eviction_chain_full [OF assms refl])
  then obtain ck' cv' ct' cth' w' where
    "eviction_chain hash_two_buckets 500 0 (0, ck, cv, TagHash hash_two_buckets hv, cth, w) =
       Inr (0, ck', cv', ct', cth', w')" by blast
  then show ?thesis
    using insert_impl_chain [of hash_two_buckets ck cv 0 "TagHash hash_two_buckets hv" cth w]
    by simp
qed


lemma TagHash_two_100: "TagHash hash_two_buckets 100 = [100, 1, 1, 1]"
  by (simp add: TagHash_def hash_two_buckets_def TagHash_loop_4 Let_def)

lemma TagHash_two_small:
  "TagHash hash_two_buckets 1 = [1, 1, 1, 1]" "TagHash hash_two_buckets 2 = [2, 1, 1, 1]"
  "TagHash hash_two_buckets 3 = [3, 1, 1, 1]" "TagHash hash_two_buckets 4 = [4, 1, 1, 1]"
  by (simp_all add: TagHash_def hash_two_buckets_def TagHash_loop_4 Let_def)

lemma full_bucket_filter_inv:
  "store_inv hash_two_buckets full_bucket_filter \<and> victim_inv hash_two_buckets full_bucket_filter"
  unfolding store_inv_def slot_ok_def victim_inv_def
  by (simp add: full_bucket_filter_def hasher_two_buckets TagHash_two_100 TagHash_two_small)

lemma full_bucket_filter_scanned:
  "erase_scanned hash_two_buckets 100 full_bucket_filter =
     (True, full_bucket_filter
        \<lparr>table := (table full_bucket_filter)(1 := (table full_bucket_filter 1)(0 := 0)),
         hashmap := (hashmap full_bucket_filter)((1, 0) := None)\<rparr>)"
proof -
  have nb: "NumBuckets full_bucket_filter = 65536" by (simp add: full_bucket_filter_def)
  show ?thesis
    unfolding erase_scanned_def Gen_two_buckets [OF nb] Let_def prod.case
    by (simp add: TagHash_two_100 erase_slot_def ReadTag_def WriteTag_def
        read_from_bucket_at_slot_def del_from_bucket_at_slot_def full_bucket_filter_def)
qed

subsection \<open>How the full-bucket example arises\<close>

lemma TagHash_two_5: "TagHash hash_two_buckets 5 = [5, 1, 1, 1]"
  by (simp add: TagHash_def hash_two_buckets_def TagHash_loop_4 Let_def)

lemma eviction_chain_add:
  "eviction_chain P (m + n) count st =
     (case eviction_chain P m count st of
        Inl r \<Rightarrow> Inl r
      | Inr st' \<Rightarrow> eviction_chain P n (count + m) st')"
proof (induction m arbitrary: count st)
  case 0
  then show ?case by simp
next
  case (Suc m)
  obtain ci ck cv ct cth w where st: "st = (ci, ck, cv, ct, cth, w)" by (cases st) auto
  show ?case
  proof (cases "insert_round P count ci ck cv ct cth w")
    case (Inl w')
    then show ?thesis by (simp add: st)
  next
    case (Inr st')
    with Suc.IH [of "Suc count" st'] show ?thesis by (simp add: st split: sum.splits)
  qed
qed

lemma kick_slot_zero:
  assumes "NumBuckets w = 65536" and "rand_state w = sconst 0" and "0 < count"
    and "table w 0 0 \<noteq> 0" "table w 0 1 \<noteq> 0" "table w 0 2 \<noteq> 0" "table w 0 3 \<noteq> 0"
    and "hashmap w (0, 0) = Some (k', v')" and "k' \<noteq> 100"
  shows "insert_round hash_two_buckets count 0 ck cv ct cth w =
     Inr (0, k', v', TagHash hash_two_buckets k', k',
          w\<lparr>table := (table w)(0 := (table w 0)(0 := ct ! 0)),
            hashmap := (hashmap w)((0, 0) \<mapsto> (ck, cv))\<rparr>)"
proof -
  let ?w1 = "WriteTag 0 0 (ct ! 0) (w\<lparr>rand_state := stl (rand_state w)\<rparr>)"
  let ?w2 = "add_to_bucket_at_slot 0 0 ck cv ?w1"
  have nb: "NumBuckets ?w2 = 65536"
    using assms(1) by (simp add: add_to_bucket_at_slot_def WriteTag_def)
  have g: "GenerateIndexTagHash hash_two_buckets ?w2 k' = (0, 0, TagHash hash_two_buckets k', k')"
    using Gen_two_buckets [OF nb, of k'] assms(9) by simp
  have rd: "read_from_bucket_at_slot ?w1 0 0 (0, 0) = (k', v')"
    using assms(8) by (simp add: read_from_bucket_at_slot_def WriteTag_def)
  have none: "List.find (\<lambda>j. ReadTag w 0 j = 0) [0, 1, 2, 3] = None"
    using assms(4-7) by (simp add: ReadTag_def)
  have w2: "?w2 = w\<lparr>table := (table w)(0 := (table w 0)(0 := ct ! 0)),
            hashmap := (hashmap w)((0, 0) \<mapsto> (ck, cv))\<rparr>"
    using assms(2) by (simp add: add_to_bucket_at_slot_def WriteTag_def)
  have sh: "shd (rand_state w) mod 4 = 0" using assms(2) by simp
  have "insert_round hash_two_buckets count 0 ck cv ct cth w =
      Inr (0, k', v', TagHash hash_two_buckets k', k', ?w2)"
    using assms(3) none
    unfolding insert_round_def InsertTagToBucket_def Let_def rand_def prod.case
    by (simp add: sh rd g del: find.simps)
  then show ?thesis unfolding w2 .
qed


text \<open>
  With \<open>rand()\<close> returning 0 every kick goes to slot 0: two kicks in a row put the
  displaced entry back and leave the chain where it was.
\<close>

lemma two_kicks:
  assumes "NumBuckets w = 65536" and "rand_state w = sconst 0"
    and "table w 0 0 = TagHash hash_two_buckets k' ! 0"
    and "table w 0 1 \<noteq> 0" "table w 0 2 \<noteq> 0" "table w 0 3 \<noteq> 0"
    and "hashmap w (0, 0) = Some (k', v')" and "k' \<noteq> 100" and "ck \<noteq> 100"
  shows "0 < count \<Longrightarrow>
         eviction_chain hash_two_buckets (2 * m) count
           (0, ck, cv, TagHash hash_two_buckets ck, ck, w) =
         Inr (0, ck, cv, TagHash hash_two_buckets ck, ck, w)"
proof (induction m arbitrary: count)
  case 0
  show ?case by simp
next
  case (Suc m)
  let ?w1 = "w\<lparr>table := (table w)(0 := (table w 0)(0 := TagHash hash_two_buckets ck ! 0)),
               hashmap := (hashmap w)((0, 0) \<mapsto> (ck, cv))\<rparr>"
  have t0: "table w 0 0 \<noteq> 0" using assms(3) by (simp add: TagHash_nonzero)
  have r1: "insert_round hash_two_buckets count 0 ck cv (TagHash hash_two_buckets ck) ck w =
      Inr (0, k', v', TagHash hash_two_buckets k', k', ?w1)"
    by (rule kick_slot_zero [OF assms(1,2) Suc.prems t0 assms(4-8)])
  have restored: "?w1\<lparr>table := (table ?w1)(0 := (table ?w1 0)(0 := TagHash hash_two_buckets k' ! 0)),
               hashmap := (hashmap ?w1)((0, 0) \<mapsto> (k', v'))\<rparr> = w"
  proof -
    have "(table w)(0 := (table w 0)(0 := TagHash hash_two_buckets k' ! 0)) = table w"
      using assms(3) by (simp add: fun_upd_idem)
    moreover have "(hashmap w)((0, 0) \<mapsto> (k', v')) = hashmap w"
      using assms(7) by (simp add: fun_upd_idem)
    ultimately show ?thesis by simp
  qed
  have r2: "insert_round hash_two_buckets (Suc count) 0 k' v' (TagHash hash_two_buckets k') k' ?w1 =
      Inr (0, ck, cv, TagHash hash_two_buckets ck, ck, w)"
    using kick_slot_zero [of ?w1 "Suc count" ck cv k' v' "TagHash hash_two_buckets k'" k']
      assms restored
    by (simp add: TagHash_nonzero)
  have "eviction_chain hash_two_buckets (2 * Suc m) count
           (0, ck, cv, TagHash hash_two_buckets ck, ck, w) =
        eviction_chain hash_two_buckets (2 * m) (Suc (Suc count))
           (0, ck, cv, TagHash hash_two_buckets ck, ck, w)"
    by (simp add: r1 r2)
  with Suc.IH [of "Suc (Suc count)"] show ?case by simp
qed
lemma insert_first_round:
  assumes "\<not> used (victim w)" and "NumBuckets w = 65536"
    and "List.find (\<lambda>j. ReadTag w (if k = 100 then 1 else 0) j = 0) [0, 1, 2, 3] = Some j"
  shows "insert hash_two_buckets k v w =
     (True, w\<lparr>table := (table w)((if k = 100 then 1 else 0) :=
                    (table w (if k = 100 then 1 else 0))(j := TagHash hash_two_buckets k ! j)),
              hashmap := (hashmap w)((if k = 100 then 1 else 0, j) \<mapsto> (k, v)),
              num_items := num_items w + 1\<rparr>)"
proof -
  let ?i = "if k = 100 then 1 else 0 :: nat"
  have r: "insert_round hash_two_buckets 0 ?i k v (TagHash hash_two_buckets k) k w =
      Inl (w\<lparr>table := (table w)(?i := (table w ?i)(j := TagHash hash_two_buckets k ! j)),
              hashmap := (hashmap w)((?i, j) \<mapsto> (k, v)),
              num_items := num_items w + 1\<rparr>)"
    using assms(3)
    unfolding insert_round_def InsertTagToBucket_def Let_def
    by (simp add: add_to_bucket_at_slot_def WriteTag_def del: find.simps)
  show ?thesis
    using assms(1) insert_loop_0_Inl [OF r]
    by (simp add: insert_def Gen_two_buckets [OF assms(2)] insert_impl_def)
qed

lemma five_inserts:
  "snd (insert hash_two_buckets 100 1000
     (snd (insert hash_two_buckets 4 40
       (snd (insert hash_two_buckets 3 30
         (snd (insert hash_two_buckets 2 20
           (snd (insert hash_two_buckets 5 50 (CuckooFilter_new 1000 (sconst 0)))))))))))
   = \<lparr>NumBuckets = 65536,
      table = (\<lambda>i j. 0)(0 := (\<lambda>j. 0)(0 := 5, 1 := 1, 2 := 1, 3 := 1), 1 := (\<lambda>j. 0)(0 := 100)),
      hashmap = [(0, 0) \<mapsto> (5, 50), (0, 1) \<mapsto> (2, 20), (0, 2) \<mapsto> (3, 30), (0, 3) \<mapsto> (4, 40),
                 (1, 0) \<mapsto> (100, 1000)],
      num_items = 5,
      victim = \<lparr>index = 0, tag_hash = 0, used = False, key = 0, val = 0\<rparr>,
      rand_state = sconst 0\<rparr>"
proof -
  let ?w0 = "\<lparr>NumBuckets = 65536, table = (\<lambda>i j. 0), hashmap = Map.empty, num_items = 0,
      victim = \<lparr>index = 0, tag_hash = 0, used = False, key = 0, val = 0\<rparr>,
      rand_state = sconst 0\<rparr>"
  have w0: "CuckooFilter_new 1000 (sconst 0) = ?w0"
    by (simp add: CuckooFilter_new_def upperpower2_32768 Let_def)
  let ?w1 = "?w0\<lparr>table := (\<lambda>i j. 0)(0 := (\<lambda>j. 0)(0 := 5)),
      hashmap := [(0, 0) \<mapsto> (5, 50)], num_items := 1\<rparr>"
  have s1: "snd (insert hash_two_buckets 5 50 ?w0) = ?w1"
    by (subst insert_first_round [where j = 0]) (simp_all add: ReadTag_def TagHash_two_5)
  let ?w2 = "?w0\<lparr>table := (\<lambda>i j. 0)(0 := (\<lambda>j. 0)(0 := 5, 1 := 1)),
      hashmap := [(0, 0) \<mapsto> (5, 50), (0, 1) \<mapsto> (2, 20)], num_items := 2\<rparr>"
  have s2: "snd (insert hash_two_buckets 2 20 ?w1) = ?w2"
    by (subst insert_first_round [where j = 1]) (simp_all add: ReadTag_def TagHash_two_small)
  let ?w3 = "?w0\<lparr>table := (\<lambda>i j. 0)(0 := (\<lambda>j. 0)(0 := 5, 1 := 1, 2 := 1)),
      hashmap := [(0, 0) \<mapsto> (5, 50), (0, 1) \<mapsto> (2, 20), (0, 2) \<mapsto> (3, 30)], num_items := 3\<rparr>"
  have s3: "snd (insert hash_two_buckets 3 30 ?w2) = ?w3"
    by (subst insert_first_round [where j = 2]) (simp_all add: ReadTag_def TagHash_two_small)
  let ?w4 = "?w0\<lparr>table := (\<lambda>i j. 0)(0 := (\<lambda>j. 0)(0 := 5, 1 := 1, 2 := 1, 3 := 1)),
      hashmap := [(0, 0) \<mapsto> (5, 50), (0, 1) \<mapsto> (2, 20), (0, 2) \<mapsto> (3, 30), (0, 3) \<mapsto> (4, 40)],
      num_items := 4\<rparr>"
  have s4: "snd (insert hash_two_buckets 4 40 ?w3) = ?w4"
    by (subst insert_first_round [where j = 3]) (simp_all add: ReadTag_def TagHash_two_small)
  let ?w5 = "?w0\<lparr>table := (\<lambda>i j. 0)(0 := (\<lambda>j. 0)(0 := 5, 1 := 1, 2 := 1, 3 := 1),
        1 := (\<lambda>j. 0)(0 := 100)),
      hashmap := [(0, 0) \<mapsto> (5, 50), (0, 1) \<mapsto> (2, 20), (0, 2) \<mapsto> (3, 30), (0, 3) \<mapsto> (4, 40),
                  (1, 0) \<mapsto> (100, 1000)],
      num_items := 5\<rparr>"
  have s5: "snd (insert hash_two_buckets 100 1000 ?w4) = ?w5"
    by (subst insert_first_round [where j = 0]) (simp_all add: ReadTag_def TagHash_two_100)
  show ?thesis unfolding w0 s1 s2 s3 s4 s5 by simp
qed
lemma full_bucket_filter_built: "full_bucket_built = full_bucket_filter"
proof -
  let ?w5 = "\<lparr>NumBuckets = 65536,
      table = (\<lambda>i j. 0)(0 := (\<lambda>j. 0)(0 := 5, 1 := 1, 2 := 1, 3 := 1), 1 := (\<lambda>j. 0)(0 := 100)),
      hashmap = [(0, 0) \<mapsto> (5, 50), (0, 1) \<mapsto> (2, 20), (0, 2) \<mapsto> (3, 30), (0, 3) \<mapsto> (4, 40),
                 (1, 0) \<mapsto> (100, 1000)],
      num_items = 5,
      victim = \<lparr>index = 0, tag_hash = 0, used = False, key = 0, val = 0\<rparr>,
      rand_state = sconst 0\<rparr>"
  let ?w6 = "?w5\<lparr>table := (table ?w5)(0 := (table ?w5 0)(0 := TagHash hash_two_buckets 1 ! 0)),
               hashmap := (hashmap ?w5)((0, 0) \<mapsto> (1, 10))\<rparr>"
  let ?t1 = "TagHash hash_two_buckets 1" and ?t5 = "TagHash hash_two_buckets 5"
  have nb: "NumBuckets ?w5 = 65536" by simp
  have g: "GenerateIndexTagHash hash_two_buckets ?w5 1 = (0, 0, ?t1, 1)"
    using Gen_two_buckets [OF nb, of 1] by simp
  have r0: "insert_round hash_two_buckets 0 0 1 10 ?t1 1 ?w5 = Inr (0, 1, 10, ?t1, 1, ?w5)"
    unfolding insert_round_def InsertTagToBucket_def Let_def prod.case
    by (simp add: ReadTag_def Gen_two_buckets)
  have r1: "insert_round hash_two_buckets (Suc 0) 0 1 10 ?t1 1 ?w5 = Inr (0, 5, 50, ?t5, 5, ?w6)"
    by (rule kick_slot_zero [where k' = 5 and v' = 50]) simp_all
  have r2: "eviction_chain hash_two_buckets (2 * 249) (Suc (Suc 0)) (0, 5, 50, ?t5, 5, ?w6) =
      Inr (0, 5, 50, ?t5, 5, ?w6)"
    by (rule two_kicks [where k' = 1 and v' = 10]) (simp_all add: TagHash_two_small)
  have n: "(500 :: nat) = Suc (Suc (2 * 249))" by simp
  have ch: "eviction_chain hash_two_buckets 500 0 (0, 1, 10, ?t1, 1, ?w5) =
      Inr (0, 5, 50, ?t5, 5, ?w6)"
    by (simp only: n eviction_chain.simps r0 r1 r2 sum.case)
  have ins: "insert hash_two_buckets 1 10 ?w5 =
      (True, ?w6\<lparr>victim := \<lparr>index = 0, tag_hash = 5, used = True, key = 5, val = 50\<rparr>\<rparr>)"
    unfolding insert_def g prod.case Let_def insert_impl_chain ch by simp
  have "snd (insert hash_two_buckets 1 10 ?w5) = full_bucket_filter"
    unfolding ins full_bucket_filter_def
    by (simp add: TagHash_two_small fun_eq_iff)
  then show ?thesis unfolding full_bucket_built_def Let_def five_inserts .
qed

subsection \<open>Erase and the Victim\<close>

lemma insert_round_frame:
  "case insert_round P count curindex curkey curval curtag curtaghash w of
     Inl w' \<Rightarrow> victim w' = victim w
   | Inr (ci, ck, cv, ct, cth, w') \<Rightarrow> victim w' = victim w"
proof (cases "List.find (\<lambda>j. ReadTag w curindex j = 0) [0, 1, 2, 3]")
  case (Some j)
  then show ?thesis
    unfolding insert_round_def InsertTagToBucket_def Let_def
    by (simp add: add_to_bucket_at_slot_def WriteTag_def del: find.simps)
next
  case None
  then show ?thesis
    unfolding insert_round_def InsertTagToBucket_def Let_def rand_def
    by (simp add: add_to_bucket_at_slot_def WriteTag_def split: prod.splits del: find.simps)
qed

lemma eviction_chain_victim:
  "eviction_chain P n count (ci, ck, cv, ct, cth, w) = Inl (c, w') \<Longrightarrow> victim w' = victim w"
proof (induction n arbitrary: count ci ck cv ct cth w)
  case 0
  then show ?case by simp
next
  case (Suc n)
  note f = insert_round_frame [where P = P and count = count and curindex = ci and curkey = ck
      and curval = cv and curtag = ct and curtaghash = cth and w = w]
  show ?case
  proof (cases "insert_round P count ci ck cv ct cth w")
    case (Inl w1)
    with Suc.prems f show ?thesis by simp
  next
    case (Inr st)
    obtain ci' ck' cv' ct' cth' w1 where st: "st = (ci', ck', cv', ct', cth', w1)"
      by (cases st) auto
    from Inr st f have v: "victim w1 = victim w" by simp
    from Suc.prems Inr st
    have "eviction_chain P n (Suc count) (ci', ck', cv', ct', cth', w1) = Inl (c, w')" by simp
    from Suc.IH [OF this] v show ?thesis by simp
  qed
qed

lemma erase_slot_frame:
  "victim (snd (snd (erase_slot k tg i slot (f, fps, w)))) = victim w"
  by (simp add: erase_slot_def Let_def del_from_bucket_at_slot_def WriteTag_def)

lemma erase_scan_frame:
  "victim (snd (snd (foldl (\<lambda>st slot. erase_slot k tg i slot st) (f, fps, w) xs))) = victim w"
proof (induction xs arbitrary: f fps w)
  case Nil
  then show ?case by simp
next
  case (Cons x xs)
  obtain f1 fps1 w1 where s: "erase_slot k tg i x (f, fps, w) = (f1, fps1, w1)"
    using prod_cases3 by blast
  from erase_slot_frame [of k tg i x f fps w] s have "victim w1 = victim w" by simp
  with Cons.IH [of f1 fps1 w1] s show ?case by simp
qed

lemma erase_scanned_frame: "victim (snd (erase_scanned P k w)) = victim w"
proof -
  obtain i1 i2 tg th where g: "GenerateIndexTagHash P w k = (i1, i2, tg, th)"
    by (cases "GenerateIndexTagHash P w k") auto
  let ?xs = "[0, 1, 2, 3] :: nat list"
  obtain f1 fps1 w1 where s1:
    "foldl (\<lambda>st slot. erase_slot k tg i1 slot st) (False, [], w) ?xs = (f1, fps1, w1)"
    using prod_cases3 by blast
  obtain f2 fps2 w2 where s2:
    "foldl (\<lambda>st slot. erase_slot k tg i2 slot st) (f1, fps1, w1) ?xs = (f2, fps2, w2)"
    using prod_cases3 by blast
  from erase_scan_frame [of k tg i1 False "[]" w ?xs] s1 have v1: "victim w1 = victim w" by simp
  from erase_scan_frame [of k tg i2 f1 fps1 w1 ?xs] s2 have v2: "victim w2 = victim w1" by simp
  have r: "erase_scanned P k w = (f2, repair_all P fps2 w2)"
    unfolding erase_scanned_def g Let_def prod.case s1 s2 by simp
  show ?thesis unfolding r using repair_all_frame [of P fps2 w2] v1 v2 by simp
qed

text \<open>
  Claim C6, as stated: whenever \<open>erase\<close> removes a confirmed occupant from the bucket
  table while the Victim is in use, the Victim ends the call cleared. It fails in
  \<open>full_bucket_filter\<close>, the state six calls of \<open>insert\<close> build: erasing key 100
  frees a slot of bucket 1, the Victim's key 5 has
  both candidate buckets 0, which stays full, the re-insertion runs through its 500
  rounds and puts the entry it is left with back into the Victim.
\<close>

theorem erase_victim_counterexample:
  "full_bucket_built = full_bucket_filter \<and>
   store_inv hash_two_buckets full_bucket_filter \<and>
   used (victim full_bucket_filter) \<and>
   \<not> victim_holds hash_two_buckets full_bucket_filter 100 \<and>
   confirmed_hit hash_two_buckets full_bucket_filter 100 \<and>
   fst (erase hash_two_buckets 100 full_bucket_filter) \<and>
   fst (erase_scanned hash_two_buckets 100 full_bucket_filter) \<and>
   used (victim (snd (erase hash_two_buckets 100 full_bucket_filter)))"
proof -
  have nb: "NumBuckets full_bucket_filter = 65536" by (simp add: full_bucket_filter_def)
  let ?w' = "full_bucket_filter
        \<lparr>table := (table full_bucket_filter)(1 := (table full_bucket_filter 1)(0 := 0)),
         hashmap := (hashmap full_bucket_filter)((1, 0) := None)\<rparr>"
  let ?w0 = "?w'\<lparr>victim := (victim ?w')\<lparr>used := False\<rparr>\<rparr>"
  have u: "used (victim full_bucket_filter)" by (simp add: full_bucket_filter_def)
  have nv: "\<not> victim_holds hash_two_buckets full_bucket_filter 100"
    unfolding victim_holds_def Gen_two_buckets [OF nb]
    by (simp add: victim_match_def full_bucket_filter_def)
  have hit: "confirmed_hit hash_two_buckets full_bucket_filter 100"
    unfolding confirmed_hit_def Gen_two_buckets [OF nb]
    by (simp add: TagHash_two_100 hit_at_def ReadTag_def read_from_bucket_at_slot_def
        full_bucket_filter_def)
  have full: "bucket_zero_full ?w0"
    by (simp add: bucket_zero_full_def full_bucket_filter_def)
  have e: "erase hash_two_buckets 100 full_bucket_filter =
      (True, snd (insert_impl hash_two_buckets 5 50 0 (TagHash hash_two_buckets 5) 5 ?w0))"
    using nv by (simp add: erase_eq full_bucket_filter_scanned) (simp add: full_bucket_filter_def)
  have "(5 :: ItemType) \<noteq> 100" by simp
  from insert_impl_full [OF full this, of 50 5 5]
  have used: "used (victim (snd (erase hash_two_buckets 100 full_bucket_filter)))"
    by (simp add: e)
  have sc: "fst (erase_scanned hash_two_buckets 100 full_bucket_filter)"
    by (simp add: full_bucket_filter_scanned)
  show ?thesis using full_bucket_filter_built full_bucket_filter_inv u nv hit e used sc by simp
qed

text \<open>
  Claim C6, amended. Whenever \<open>erase\<close> removes a confirmed occupant from the bucket
  table while the Victim is in use, it clears the Victim's flag and re-inserts the
  Victim's (key, value) tuple starting at the Victim's recorded bucket index, with the
  tags of the Victim's recorded tag hash; the Victim ends the call cleared if one of
  the 500 attempts of that re-insertion finds an empty slot, and in use again, holding
  the entry the chain is left with, if none does.
\<close>

theorem erase_reinserts_victim:
  assumes "\<not> victim_holds P w k" and "fst (erase_scanned P k w)" and "used (victim w)"
  shows "erase P k w =
           (True, snd (insert_impl P (key (victim w)) (val (victim w)) (index (victim w))
                         (TagHash P (tag_hash (victim w))) (tag_hash (victim w))
                         ((snd (erase_scanned P k w))\<lparr>victim := (victim w)\<lparr>used := False\<rparr>\<rparr>))) \<and>
         used (victim (snd (erase P k w))) =
           (\<exists>st. eviction_chain P 500 0
                   (index (victim w), key (victim w), val (victim w),
                    TagHash P (tag_hash (victim w)), tag_hash (victim w),
                    (snd (erase_scanned P k w))\<lparr>victim := (victim w)\<lparr>used := False\<rparr>\<rparr>) = Inr st)"
proof -
  obtain f w' where s: "erase_scanned P k w = (f, w')" by (cases "erase_scanned P k w") auto
  from assms(2) s have f: "f" by simp
  from erase_scanned_frame [of P k w] s have v: "victim w' = victim w" by simp
  let ?w0 = "w'\<lparr>victim := (victim w)\<lparr>used := False\<rparr>\<rparr>"
  let ?st = "(index (victim w), key (victim w), val (victim w),
             TagHash P (tag_hash (victim w)), tag_hash (victim w), ?w0)"
  have e: "erase P k w =
      (True, snd (insert_impl P (key (victim w)) (val (victim w)) (index (victim w))
                    (TagHash P (tag_hash (victim w))) (tag_hash (victim w)) ?w0))"
    using assms(1,3) f v by (simp add: erase_eq s)
  note c = insert_impl_chain [of P "key (victim w)" "val (victim w)" "index (victim w)"
      "TagHash P (tag_hash (victim w))" "tag_hash (victim w)" ?w0]
  have "used (victim (snd (erase P k w))) = (\<exists>st. eviction_chain P 500 0 ?st = Inr st)"
  proof (cases "eviction_chain P 500 0 ?st")
    case (Inl a)
    obtain n w1 where a: "a = (n, w1)" by (cases a) auto
    from eviction_chain_victim [OF Inl [unfolded a]] have "victim w1 = victim ?w0" .
    then have "\<not> used (victim w1)" by simp
    then show ?thesis using e c Inl a by simp
  next
    case (Inr st)
    obtain ci ck cv ct cth w1 where st: "st = (ci, ck, cv, ct, cth, w1)" by (cases st) auto
    show ?thesis using e c Inr st by simp
  qed
  with e show ?thesis by (simp add: s)
qed

theorem erase_reinserts_victim_witness:
  "\<not> victim_holds hash_two_buckets full_bucket_filter 100 \<and>
   fst (erase_scanned hash_two_buckets 100 full_bucket_filter) \<and>
   used (victim full_bucket_filter) \<and>
   fst (erase hash_two_buckets 100 full_bucket_filter) = True \<and>
   (\<exists>st. eviction_chain hash_two_buckets 500 0
           (0, 5, 50, TagHash hash_two_buckets 5, 5,
            (snd (erase_scanned hash_two_buckets 100 full_bucket_filter))
              \<lparr>victim := (victim full_bucket_filter)\<lparr>used := False\<rparr>\<rparr>) = Inr st)"
proof -
  have nb: "NumBuckets full_bucket_filter = 65536" by (simp add: full_bucket_filter_def)
  have u: "used (victim full_bucket_filter)" by (simp add: full_bucket_filter_def)
  have nv: "\<not> victim_holds hash_two_buckets full_bucket_filter 100"
    unfolding victim_holds_def Gen_two_buckets [OF nb]
    by (simp add: victim_match_def full_bucket_filter_def)
  have sc: "fst (erase_scanned hash_two_buckets 100 full_bucket_filter)"
    by (simp add: full_bucket_filter_scanned)
  let ?w0 = "(snd (erase_scanned hash_two_buckets 100 full_bucket_filter))
              \<lparr>victim := (victim full_bucket_filter)\<lparr>used := False\<rparr>\<rparr>"
  have full: "bucket_zero_full ?w0"
    by (simp add: full_bucket_filter_scanned) (simp add: bucket_zero_full_def full_bucket_filter_def)
  have "\<exists>ck' cv' ct' cth' w'. eviction_chain hash_two_buckets 500 0
           (0, 5, 50, TagHash hash_two_buckets 5, 5, ?w0) = Inr (0, ck', cv', ct', cth', w') \<and>
           bucket_zero_full w'"
    by (rule eviction_chain_full [OF full _ refl]) simp
  then have ch: "\<exists>st. eviction_chain hash_two_buckets 500 0
           (0, 5, 50, TagHash hash_two_buckets 5, 5, ?w0) = Inr st" by blast
  have v: "victim full_bucket_filter = \<lparr>index = 0, tag_hash = 5, used = True, key = 5, val = 50\<rparr>"
    by (simp add: full_bucket_filter_def)
  from erase_reinserts_victim [OF nv sc u]
  have "fst (erase hash_two_buckets 100 full_bucket_filter) = True" by simp
  with nv sc u ch show ?thesis by blast
qed

theorem insert_impl_bounded_witness:
  "fst (insert_impl hash_two_buckets 5 50 0 (TagHash hash_two_buckets 5) 5
          (full_bucket_filter\<lparr>victim := (victim full_bucket_filter)\<lparr>used := False\<rparr>\<rparr>)) = True \<and>
   used (victim (snd (insert_impl hash_two_buckets 5 50 0 (TagHash hash_two_buckets 5) 5
          (full_bucket_filter\<lparr>victim := (victim full_bucket_filter)\<lparr>used := False\<rparr>\<rparr>)))) \<and>
   fst (snd (insert_loop hash_one_bucket 0 0 2 20 [2, 1, 1, 1] 2 (CuckooFilter_new 1000 (sconst 0))))
     \<le> 500"
proof -
  let ?w0 = "full_bucket_filter\<lparr>victim := (victim full_bucket_filter)\<lparr>used := False\<rparr>\<rparr>"
  have full: "bucket_zero_full ?w0"
    by (simp add: bucket_zero_full_def full_bucket_filter_def)
  have "\<exists>ck' cv' ct' cth' w'. eviction_chain hash_two_buckets 500 0
           (0, 5, 50, TagHash hash_two_buckets 5, 5, ?w0) = Inr (0, ck', cv', ct', cth', w') \<and>
           bucket_zero_full w'"
    by (rule eviction_chain_full [OF full _ refl]) simp
  then obtain ck cv ct cth w' where ch: "eviction_chain hash_two_buckets 500 0
           (0, 5, 50, TagHash hash_two_buckets 5, 5, ?w0) = Inr (0, ck, cv, ct, cth, w')" by blast
  note t = insert_impl_bounded [of hash_two_buckets 5 50 0 "TagHash hash_two_buckets 5" 5 ?w0]
  from t ch have a: "insert_impl hash_two_buckets 5 50 0 (TagHash hash_two_buckets 5) 5 ?w0 =
      (True, w'\<lparr>victim := \<lparr>index = 0, tag_hash = cth, used = True, key = ck, val = cv\<rparr>\<rparr>)"
    by simp
  note t2 = insert_impl_bounded [of hash_one_bucket 2 20 0 "[2, 1, 1, 1]" 2
      "CuckooFilter_new 1000 (sconst 0)"]
  from a t2 show ?thesis by simp
qed

subsection \<open>Add followed by Erase\<close>

lemma fresh_add_erase:
  fixes P k v n g
  defines "w0 \<equiv> CuckooFilter_new n g"
  defines "w1 \<equiv> snd (insert P k v w0)"
  defines "w2 \<equiv> snd (erase P k w1)"
  shows "fst (insert P k v w0) \<and> fst (erase P k w1) \<and> \<not> fst (contains P k w2) \<and>
         num_items w0 = 0 \<and> num_items w1 = 1 \<and> num_items w2 = 1"
proof -
  obtain i1 i2 tg th where g: "GenerateIndexTagHash P w0 k = (i1, i2, tg, th)"
    by (cases "GenerateIndexTagHash P w0 k") auto
  from GenerateIndexTagHash_tag [OF g] have tg: "tg = TagHash P (hasher P k)" by simp
  have nz: "tg ! 0 \<noteq> 0" "tg ! Suc 0 \<noteq> 0" "tg ! 2 \<noteq> 0" "tg ! 3 \<noteq> 0"
    unfolding tg by (simp_all add: TagHash_nonzero)
  have nz': "0 \<noteq> tg ! 0" "0 \<noteq> tg ! Suc 0" "0 \<noteq> tg ! 2" "0 \<noteq> tg ! 3"
    using nz by auto
  have w0: "w0 = \<lparr>NumBuckets = 65536, table = (\<lambda>i j. 0), hashmap = Map.empty, num_items = 0,
      victim = \<lparr>index = 0, tag_hash = 0, used = False, key = 0, val = 0\<rparr>, rand_state = g\<rparr>"
    by (simp add: w0_def CuckooFilter_new_def upperpower2_32768 Let_def)
  let ?w1 = "w0\<lparr>table := (table w0)(i1 := (table w0 i1)(0 := tg ! 0)),
                hashmap := (hashmap w0)((i1, 0) \<mapsto> (k, v)), num_items := 1\<rparr>"
  have r: "insert_round P 0 i1 k v tg th w0 = Inl ?w1"
    by (simp add: insert_round_def InsertTagToBucket_def ReadTag_def WriteTag_def
        add_to_bucket_at_slot_def w0 Let_def)
  have ins: "insert P k v w0 = (True, ?w1)"
    using insert_loop_0_Inl [OF r] by (simp add: insert_def insert_impl_def g) (simp add: w0)
  then have w1: "w1 = ?w1" by (simp add: w1_def)
  have g1: "GenerateIndexTagHash P w1 k = (i1, i2, tg, th)"
    using g by (simp add: GenerateIndexTagHash_def w1 w0)
  let ?w2 = "w1\<lparr>table := (table w1)(i1 := (table w1 i1)(0 := 0)),
                hashmap := (hashmap w1)((i1, 0) := None)\<rparr>"
  have sc: "erase_scanned P k w1 = (True, ?w2)"
    unfolding erase_scanned_def g1 Let_def prod.case
    using nz nz'
    by (simp add: erase_slot_def ReadTag_def WriteTag_def read_from_bucket_at_slot_def
        del_from_bucket_at_slot_def w1 w0)
  have nv1: "\<not> victim_holds P w1 k"
    by (simp add: victim_holds_def g1 victim_match_def w1 w0)
  have er: "erase P k w1 = (True, ?w2)"
    using nv1 by (simp add: erase_eq sc) (simp add: w1 w0)
  then have w2: "w2 = ?w2" by (simp add: w2_def)
  have g2: "GenerateIndexTagHash P w2 k = (i1, i2, tg, th)"
    using g by (simp add: GenerateIndexTagHash_def w2 w1 w0)
  have nv2: "\<not> victim_holds P w2 k"
    by (simp add: victim_holds_def g2 victim_match_def w2 w1 w0)
  have nh2: "\<not> confirmed_hit P w2 k"
    unfolding confirmed_hit_def g2 Let_def prod.case
    using nz nz' by (simp add: hit_at_def ReadTag_def w2 w1 w0)
  have c: "\<not> fst (contains P k w2)"
    using nv2 nh2 by (simp add: contains_eq)
  show ?thesis
    using ins er c by (simp add: w2 w1 w0)
qed
lemma insert_round_items:
  "case insert_round P count curindex curkey curval curtag curtaghash w of
     Inl w' \<Rightarrow> num_items w' = num_items w + 1
   | Inr (ci, ck, cv, ct, cth, w') \<Rightarrow> num_items w' = num_items w"
proof (cases "List.find (\<lambda>j. ReadTag w curindex j = 0) [0, 1, 2, 3]")
  case (Some j)
  then show ?thesis
    unfolding insert_round_def InsertTagToBucket_def Let_def
    by (simp add: add_to_bucket_at_slot_def WriteTag_def del: find.simps)
next
  case None
  then show ?thesis
    unfolding insert_round_def InsertTagToBucket_def Let_def rand_def
    by (simp add: add_to_bucket_at_slot_def WriteTag_def split: prod.splits del: find.simps)
qed

lemma eviction_chain_items:
  "case eviction_chain P n count (ci, ck, cv, ct, cth, w) of
     Inl (c, w') \<Rightarrow> num_items w' = num_items w + 1
   | Inr (ci', ck', cv', ct', cth', w') \<Rightarrow> num_items w' = num_items w"
proof (induction n arbitrary: count ci ck cv ct cth w)
  case 0
  then show ?case by simp
next
  case (Suc n)
  note f = insert_round_items [where P = P and count = count and curindex = ci and curkey = ck
      and curval = cv and curtag = ct and curtaghash = cth and w = w]
  show ?case
  proof (cases "insert_round P count ci ck cv ct cth w")
    case (Inl w1)
    with f show ?thesis by simp
  next
    case (Inr st)
    obtain ci' ck' cv' ct' cth' w1 where st: "st = (ci', ck', cv', ct', cth', w1)"
      by (cases st) auto
    from Inr st f have v: "num_items w1 = num_items w" by simp
    from Suc.IH [where count = "Suc count" and ci = ci' and ck = ck' and cv = cv' and ct = ct'
        and cth = cth' and w = w1] v Inr st show ?thesis
      by (simp split: sum.splits prod.splits)
  qed
qed

lemma insert_impl_items: "num_items w \<le> num_items (snd (insert_impl P k v i tg th w))"
  using eviction_chain_items [where P = P and n = 500 and count = 0 and ci = i and ck = k
      and cv = v and ct = tg and cth = th and w = w]
  by (simp add: insert_impl_chain split: sum.splits prod.splits)

lemma erase_slot_items:
  "num_items (snd (snd (erase_slot k tg i slot (f, fps, w)))) = num_items w"
  by (simp add: erase_slot_def Let_def del_from_bucket_at_slot_def WriteTag_def)

lemma erase_scan_items:
  "num_items (snd (snd (foldl (\<lambda>st slot. erase_slot k tg i slot st) (f, fps, w) xs))) = num_items w"
proof (induction xs arbitrary: f fps w)
  case Nil
  then show ?case by simp
next
  case (Cons x xs)
  obtain f1 fps1 w1 where s: "erase_slot k tg i x (f, fps, w) = (f1, fps1, w1)"
    using prod_cases3 by blast
  from erase_slot_items [of k tg i x f fps w] s have "num_items w1 = num_items w" by simp
  with Cons.IH [of f1 fps1 w1] s show ?case by simp
qed

lemma erase_scanned_items: "num_items (snd (erase_scanned P k w)) = num_items w"
proof -
  obtain i1 i2 tg th where g: "GenerateIndexTagHash P w k = (i1, i2, tg, th)"
    by (cases "GenerateIndexTagHash P w k") auto
  let ?xs = "[0, 1, 2, 3] :: nat list"
  obtain f1 fps1 w1 where s1:
    "foldl (\<lambda>st slot. erase_slot k tg i1 slot st) (False, [], w) ?xs = (f1, fps1, w1)"
    using prod_cases3 by blast
  obtain f2 fps2 w2 where s2:
    "foldl (\<lambda>st slot. erase_slot k tg i2 slot st) (f1, fps1, w1) ?xs = (f2, fps2, w2)"
    using prod_cases3 by blast
  from erase_scan_items [of k tg i1 False "[]" w ?xs] s1 have v1: "num_items w1 = num_items w"
    by simp
  from erase_scan_items [of k tg i2 f1 fps1 w1 ?xs] s2 have v2: "num_items w2 = num_items w1"
    by simp
  have r: "erase_scanned P k w = (f2, repair_all P fps2 w2)"
    unfolding erase_scanned_def g Let_def prod.case s1 s2 by simp
  show ?thesis unfolding r using repair_all_frame [of P fps2 w2] v1 v2 by simp
qed

lemma erase_items: "num_items w \<le> num_items (snd (erase P k w))"
proof (cases "victim_holds P w k")
  case True
  then show ?thesis by (simp add: erase_eq)
next
  case False
  obtain f w' where s: "erase_scanned P k w = (f, w')" by (cases "erase_scanned P k w") auto
  from erase_scanned_items [of P k w] s have n: "num_items w' = num_items w" by simp
  let ?w0 = "w'\<lparr>victim := (victim w')\<lparr>used := False\<rparr>\<rparr>"
  from insert_impl_items [of ?w0 P "key (victim w')" "val (victim w')" "index (victim w')"
      "TagHash P (tag_hash (victim w'))" "tag_hash (victim w')"]
  have "num_items w' \<le> num_items (snd (insert_impl P (key (victim w')) (val (victim w'))
      (index (victim w')) (TagHash P (tag_hash (victim w'))) (tag_hash (victim w')) ?w0))"
    by simp
  with False n show ?thesis by (simp add: erase_eq s)
qed

text \<open>
  Claim C2 says that \<open>insert\<close> (Add) of a key and then \<open>erase\<close> of it leave
  \<open>contains\<close> false and \<open>Size()\<close> at the value it had before the Add. \<open>erase\<close> has no
  statement that decrements \<open>num_items\<close>: it never lowers \<open>Size()\<close>. On a freshly
  constructed filter, for any hash functions, key and value, both calls return true
  and \<open>contains\<close> is false afterwards, but \<open>Size()\<close> is 1, not the 0 it was before.
\<close>

theorem add_erase_size_not_restored:
  "Size w \<le> Size (snd (erase P k w)) \<and>
   fst (insert P k v (CuckooFilter_new n g)) \<and>
   fst (erase P k (snd (insert P k v (CuckooFilter_new n g)))) \<and>
   \<not> fst (contains P k (snd (erase P k (snd (insert P k v (CuckooFilter_new n g)))))) \<and>
   \<not> used (victim (CuckooFilter_new n g)) \<and>
   Size (CuckooFilter_new n g) = 0 \<and>
   Size (snd (erase P k (snd (insert P k v (CuckooFilter_new n g))))) = 1"
  using fresh_add_erase [of P k v n g] erase_items [of w P k]
  by (simp add: Size_def CuckooFilter_new_def Let_def)

theorem add_erase_size_not_restored_witness:
  "Size (CuckooFilter_new 1000 (sconst 0)) = 0 \<and>
   Size (snd (erase hash_one_bucket 1
           (snd (insert hash_one_bucket 1 10 (CuckooFilter_new 1000 (sconst 0)))))) = 1"
  using add_erase_size_not_restored [of "CuckooFilter_new 1000 (sconst 0)" hash_one_bucket 1 10
      1000 "sconst 0"]
  by blast

subsection \<open>What the scan loops of erase remove\<close>

lemma clear_slots_none: "clear_slots i (\<lambda>s. False) w = w"
  by (simp add: clear_slots_def)

lemma clear_slots_twice:
  "clear_slots i C2 (clear_slots i C1 w) = clear_slots i (\<lambda>s. C1 s \<or> C2 s) w"
  by (auto simp: clear_slots_def fun_eq_iff)

lemma clear_slots_cong:
  "(\<And>s. C1 s = C2 s) \<Longrightarrow> clear_slots i C1 w = clear_slots i C2 w"
  by (simp add: clear_slots_def)

lemma clear_one_slot:
  "del_from_bucket_at_slot i x (WriteTag i x 0 w) = clear_slots i (\<lambda>s. s = x) w"
  by (auto simp: del_from_bucket_at_slot_def WriteTag_def clear_slots_def fun_eq_iff)

lemma hit_at_clear_slots:
  "tg ! s \<noteq> 0 \<or> \<not> (b = i \<and> C s) \<Longrightarrow>
   hit_at (clear_slots i C w) k tg b s = (hit_at w k tg b s \<and> \<not> (b = i \<and> C s))"
  by (auto simp: hit_at_def clear_slots_def ReadTag_def read_from_bucket_at_slot_def)

lemma fp_at_clear_slots:
  "tg ! s \<noteq> 0 \<or> \<not> (b = i \<and> C s) \<Longrightarrow>
   fp_at (clear_slots i C w) k tg b s = (fp_at w k tg b s \<and> \<not> (b = i \<and> C s))"
  by (auto simp: fp_at_def clear_slots_def ReadTag_def read_from_bucket_at_slot_def)

lemma erase_slot_hit:
  "hit_at w k tg i x \<Longrightarrow>
   erase_slot k tg i x (f, fps, w) = (True, fps, clear_slots i (\<lambda>s. s = x) w)"
  by (simp add: erase_slot_def hit_at_def Let_def clear_one_slot)

lemma hit_not_fp: "hit_at w k tg i s \<Longrightarrow> \<not> fp_at w k tg i s"
  by (simp add: hit_at_def fp_at_def)

lemma erase_scan_clears:
  "distinct xs \<Longrightarrow>
   foldl (\<lambda>st slot. erase_slot k tg i slot st) (f, fps, w) xs =
     (f \<or> list_ex (hit_at w k tg i) xs,
      fps @ map (Pair i) (filter (fp_at w k tg i) xs),
      clear_slots i (\<lambda>s. s \<in> set xs \<and> hit_at w k tg i s) w)"
proof (induction xs arbitrary: f fps w)
  case Nil
  then show ?case by (simp add: clear_slots_none)
next
  case (Cons x xs)
  then have d: "distinct xs" and nx: "x \<notin> set xs" by simp_all
  show ?case
  proof (cases "hit_at w k tg i x")
    case True
    let ?w1 = "clear_slots i (\<lambda>s. s = x) w"
    have h: "\<And>s. s \<in> set xs \<Longrightarrow> hit_at ?w1 k tg i s = hit_at w k tg i s"
      using nx by (subst hit_at_clear_slots) auto
    have p: "\<And>s. s \<in> set xs \<Longrightarrow> fp_at ?w1 k tg i s = fp_at w k tg i s"
      using nx by (subst fp_at_clear_slots) auto
    have e1: "list_ex (hit_at ?w1 k tg i) xs = list_ex (hit_at w k tg i) xs"
      using h by (simp add: list_ex_iff)
    have e2: "filter (fp_at ?w1 k tg i) xs = filter (fp_at w k tg i) xs"
      using p by (simp cong: filter_cong)
    have e3: "clear_slots i (\<lambda>s. s \<in> set xs \<and> hit_at ?w1 k tg i s) ?w1 =
        clear_slots i (\<lambda>s. s \<in> set (x # xs) \<and> hit_at w k tg i s) w"
      unfolding clear_slots_twice
      by (rule clear_slots_cong) (use h True in auto)
    show ?thesis
      using Cons.IH [OF d, of True fps ?w1] True hit_not_fp [OF True]
      by (simp add: erase_slot_hit e1 e2 e3)
  next
    case False
    have e3: "clear_slots i (\<lambda>s. s \<in> set xs \<and> hit_at w k tg i s) w =
        clear_slots i (\<lambda>s. s \<in> set (x # xs) \<and> hit_at w k tg i s) w"
      by (rule clear_slots_cong) (use False in auto)
    show ?thesis
      using Cons.IH [OF d, of f "if fp_at w k tg i x then fps @ [(i, x)] else fps" w] False
      by (simp add: erase_slot_eq e3)
  qed
qed

lemma erase_scans:
  assumes g: "GenerateIndexTagHash P w k = (i1, i2, tg, th)"
  shows "foldl (\<lambda>st slot. erase_slot k tg i2 slot st)
           (foldl (\<lambda>st slot. erase_slot k tg i1 slot st) (False, [], w) [0, 1, 2, 3])
           [0, 1, 2, 3] =
         (confirmed_hit P w k, false_positives_of P w k, erase_cleared P k w)"
proof -
  let ?xs = "[0, 1, 2, 3] :: nat list"
  let ?C1 = "\<lambda>s. s \<in> set ?xs \<and> hit_at w k tg i1 s"
  let ?w1 = "clear_slots i1 ?C1 w"
  have d: "distinct ?xs" by simp
  from GenerateIndexTagHash_tag [OF g] have tg: "tg = TagHash P (hasher P k)" by simp
  have nz: "\<And>s. s \<in> set ?xs \<Longrightarrow> tg ! s \<noteq> 0"
    unfolding tg by (rule TagHash_nonzero) auto
  have h: "\<And>s. s \<in> set ?xs \<Longrightarrow>
      hit_at ?w1 k tg i2 s = (hit_at w k tg i2 s \<and> \<not> (i2 = i1 \<and> ?C1 s))"
    by (rule hit_at_clear_slots) (use nz in blast)
  have p: "\<And>s. s \<in> set ?xs \<Longrightarrow> fp_at ?w1 k tg i2 s = fp_at w k tg i2 s"
  proof -
    fix s assume s: "s \<in> set ?xs"
    have "fp_at ?w1 k tg i2 s = (fp_at w k tg i2 s \<and> \<not> (i2 = i1 \<and> ?C1 s))"
      by (rule fp_at_clear_slots) (use nz s in blast)
    then show "fp_at ?w1 k tg i2 s = fp_at w k tg i2 s"
      using hit_not_fp [of w k tg i1 s] by auto
  qed
  have e1: "(list_ex (hit_at w k tg i1) ?xs \<or> list_ex (hit_at ?w1 k tg i2) ?xs) =
      confirmed_hit P w k"
    unfolding confirmed_hit_def g Let_def prod.case list_ex_iff using h by auto
  have e2: "filter (fp_at ?w1 k tg i2) ?xs = filter (fp_at w k tg i2) ?xs"
    by (rule filter_cong) (use p in simp_all)
  have lt: "\<And>s :: nat. (s \<in> set ?xs) = (s < 4)" by (simp, arith)
  have key: "\<And>b s. ((b = i2 \<and> s \<in> set ?xs \<and> hit_at ?w1 k tg i2 s) \<or> (b = i1 \<and> ?C1 s)) =
      (s < 4 \<and> (b = i1 \<or> b = i2) \<and> hit_at w k tg b s)"
    using h lt by blast
  have e3: "clear_slots i2 (\<lambda>s. s \<in> set ?xs \<and> hit_at ?w1 k tg i2 s) ?w1 = erase_cleared P k w"
  proof (rule CuckooFilter.equality)
    show "table (clear_slots i2 (\<lambda>s. s \<in> set ?xs \<and> hit_at ?w1 k tg i2 s) ?w1) =
        table (erase_cleared P k w)"
    proof (intro ext)
      fix b s
      show "table (clear_slots i2 (\<lambda>s. s \<in> set ?xs \<and> hit_at ?w1 k tg i2 s) ?w1) b s =
          table (erase_cleared P k w) b s"
        using key [of b s]
        unfolding erase_cleared_def g Let_def prod.case clear_slots_def
        by (simp del: set_simps) blast
    qed
    show "hashmap (clear_slots i2 (\<lambda>s. s \<in> set ?xs \<and> hit_at ?w1 k tg i2 s) ?w1) =
        hashmap (erase_cleared P k w)"
    proof (intro ext)
      fix a :: "nat \<times> nat"
      obtain b s where a: "a = (b, s)" by (cases a) auto
      show "hashmap (clear_slots i2 (\<lambda>s. s \<in> set ?xs \<and> hit_at ?w1 k tg i2 s) ?w1) a =
          hashmap (erase_cleared P k w) a"
        using key [of b s]
        unfolding erase_cleared_def g Let_def prod.case clear_slots_def a
        by (simp del: set_simps) blast
    qed
  qed (simp_all add: erase_cleared_def g clear_slots_def)
  show ?thesis
    unfolding erase_scan_clears [OF d]
    by (simp only: e1 e2 e3 false_positives_of_def g Let_def prod.case simp_thms append_Nil)
qed

lemma erase_scanned_eq:
  "erase_scanned P k w =
     (confirmed_hit P w k, repair_all P (false_positives_of P w k) (erase_cleared P k w))"
proof -
  obtain i1 i2 tg th where g: "GenerateIndexTagHash P w k = (i1, i2, tg, th)"
    by (cases "GenerateIndexTagHash P w k") auto
  show ?thesis
    unfolding erase_scanned_def g Let_def prod.case erase_scans [OF g] by simp
qed

lemma erase_cleared_absent: "\<not> confirmed_hit P w k \<Longrightarrow> erase_cleared P k w = w"
proof -
  assume n: "\<not> confirmed_hit P w k"
  obtain i1 i2 tg th where g: "GenerateIndexTagHash P w k = (i1, i2, tg, th)"
    by (cases "GenerateIndexTagHash P w k") auto
  have F: "\<And>b s. \<not> (s < 4 \<and> (b = i1 \<or> b = i2) \<and> hit_at w k tg b s)"
  proof -
    fix b s
    have "s < 4 \<Longrightarrow> s \<in> set [0, 1, 2, 3 :: nat]" by (simp, arith)
    with n show "\<not> (s < 4 \<and> (b = i1 \<or> b = i2) \<and> hit_at w k tg b s)"
      unfolding confirmed_hit_def g Let_def prod.case list_ex_iff by blast
  qed
  have t: "(\<lambda>b s. if s < 4 \<and> (b = i1 \<or> b = i2) \<and> hit_at w k tg b s then 0 else table w b s) =
      table w"
  proof (intro ext)
    fix b s
    show "(if s < 4 \<and> (b = i1 \<or> b = i2) \<and> hit_at w k tg b s then 0 else table w b s) =
        table w b s"
      using F by auto
  qed
  have h: "(\<lambda>(b, s). if s < 4 \<and> (b = i1 \<or> b = i2) \<and> hit_at w k tg b s then None
                      else hashmap w (b, s)) = hashmap w"
  proof (intro ext)
    fix a :: "nat \<times> nat"
    obtain b s where a: "a = (b, s)" by (cases a) auto
    show "(case a of (b, s) \<Rightarrow> if s < 4 \<and> (b = i1 \<or> b = i2) \<and> hit_at w k tg b s then None
                      else hashmap w (b, s)) = hashmap w a"
      unfolding a using F by auto
  qed
  show ?thesis
    unfolding erase_cleared_def g Let_def prod.case t h by simp
qed

lemma erase_characterised:
  "erase P k w =
     (if victim_holds P w k then (True, w\<lparr>victim := (victim w)\<lparr>used := False\<rparr>\<rparr>)
      else if confirmed_hit P w k then
        (True, try_removing_victim P
                 (repair_all P (false_positives_of P w k) (erase_cleared P k w)))
      else (False, repair_all P (false_positives_of P w k) w))"
  by (simp add: erase_eq erase_scanned_eq erase_cleared_absent try_removing_victim_def Let_def
      split: prod.splits)

text \<open>
  Claim C7. \<open>erase\<close> returns true only if a confirmed occupant was removed. It returns
  true exactly when the Victim matches or a tag-matching slot of a candidate bucket has a
  value-store entry that holds exactly the key. On a Victim match the Victim is
  cleared and nothing else changes. Otherwise, on a confirmed hit, every such slot has
  its tag set to 0 and its entry deleted (\<open>erase_cleared\<close>) before the false positives
  are repaired and the Victim is retried. For a key that is not present \<open>erase\<close>
  returns false and its only effect is the repair of the false positives its scan met:
  Victim and item count are unchanged, and with no false positive the whole state is.
\<close>

theorem erase_true_only_if_removed:
  "fst (erase P k w) = (victim_holds P w k \<or> confirmed_hit P w k) \<and>
   (victim_holds P w k \<longrightarrow> snd (erase P k w) = w\<lparr>victim := (victim w)\<lparr>used := False\<rparr>\<rparr>) \<and>
   (\<not> victim_holds P w k \<and> confirmed_hit P w k \<longrightarrow>
      snd (erase P k w) =
        try_removing_victim P (repair_all P (false_positives_of P w k) (erase_cleared P k w))) \<and>
   (let (i1, i2, tg, th) = GenerateIndexTagHash P w k in
    \<forall>b s. table (erase_cleared P k w) b s =
             (if s < 4 \<and> (b = i1 \<or> b = i2) \<and> hit_at w k tg b s then 0 else table w b s) \<and>
           hashmap (erase_cleared P k w) (b, s) =
             (if s < 4 \<and> (b = i1 \<or> b = i2) \<and> hit_at w k tg b s then None
              else hashmap w (b, s))) \<and>
   (\<not> victim_holds P w k \<and> \<not> confirmed_hit P w k \<longrightarrow>
      erase P k w = (False, repair_all P (false_positives_of P w k) w) \<and>
      victim (snd (erase P k w)) = victim w \<and>
      num_items (snd (erase P k w)) = num_items w \<and>
      (false_positives_of P w k = [] \<longrightarrow> snd (erase P k w) = w))"
proof -
  obtain i1 i2 tg th where g: "GenerateIndexTagHash P w k = (i1, i2, tg, th)"
    by (cases "GenerateIndexTagHash P w k") auto
  have c: "\<forall>b s. table (erase_cleared P k w) b s =
             (if s < 4 \<and> (b = i1 \<or> b = i2) \<and> hit_at w k tg b s then 0 else table w b s) \<and>
           hashmap (erase_cleared P k w) (b, s) =
             (if s < 4 \<and> (b = i1 \<or> b = i2) \<and> hit_at w k tg b s then None
              else hashmap w (b, s))"
    unfolding erase_cleared_def g Let_def prod.case by simp
  show ?thesis
    unfolding g Let_def prod.case
    using c repair_all_frame [of P "false_positives_of P w k" w]
    by (simp add: erase_characterised)
qed


lemma victim_holds_full_5: "victim_holds hash_two_buckets full_bucket_filter 5"
proof -
  have nb: "NumBuckets full_bucket_filter = 65536" by (simp add: full_bucket_filter_def)
  show ?thesis
    unfolding victim_holds_def Gen_two_buckets [OF nb] Let_def prod.case
    by (simp add: victim_match_def full_bucket_filter_def)
qed

lemma one_key_filter_2:
  "\<not> victim_holds hash_one_bucket one_key_filter 2 \<and>
   confirmed_hit hash_one_bucket one_key_filter 2 \<and>
   false_positives_of hash_one_bucket one_key_filter 2 = [] \<and>
   hit_at one_key_filter 2 (TagHash hash_one_bucket 2) 0 0 \<and>
   hashmap one_key_filter (0, 0) = Some (2, 20) \<and>
   \<not> used (victim (erase_cleared hash_one_bucket 2 one_key_filter))"
proof -
  have e: "\<not> victim_holds hash_one_bucket one_key_filter 2"
    by (simp add: victim_holds_def victim_match_def Gen_one_bucket one_key_filter_eq)
  have h: "confirmed_hit hash_one_bucket one_key_filter 2"
    by (simp add: confirmed_hit_def Gen_one_bucket TagHash_2 hit_at_def ReadTag_def
        read_from_bucket_at_slot_def one_key_filter_eq)
  have f2: "false_positives_of hash_one_bucket one_key_filter 2 = []"
    by (simp add: false_positives_of_def Gen_one_bucket TagHash_2 fp_at_def ReadTag_def
        read_from_bucket_at_slot_def one_key_filter_eq)
  have nu: "\<not> used (victim (erase_cleared hash_one_bucket 2 one_key_filter))"
    by (simp add: erase_cleared_def Gen_one_bucket one_key_filter_eq)
  have h0: "hit_at one_key_filter 2 (TagHash hash_one_bucket 2) 0 0"
    by (simp add: TagHash_2 hit_at_def ReadTag_def read_from_bucket_at_slot_def one_key_filter_eq)
  have st: "hashmap one_key_filter (0, 0) = Some (2, 20)" by (simp add: one_key_filter_eq)
  from e h f2 h0 st nu show ?thesis by (intro conjI)
qed

lemma one_key_filter_513:
  "\<not> victim_holds hash_one_bucket one_key_filter 513 \<and>
   \<not> confirmed_hit hash_one_bucket one_key_filter 513 \<and>
   false_positives_of hash_one_bucket one_key_filter 513 = []"
proof -
  have a: "\<not> victim_holds hash_one_bucket one_key_filter 513"
    by (simp add: victim_holds_def victim_match_def Gen_one_bucket one_key_filter_eq)
  have b: "\<not> confirmed_hit hash_one_bucket one_key_filter 513"
    by (simp add: confirmed_hit_def Gen_one_bucket TagHash_513 hit_at_def ReadTag_def
        one_key_filter_eq)
  have c: "false_positives_of hash_one_bucket one_key_filter 513 = []"
    by (simp add: false_positives_of_def Gen_one_bucket TagHash_513 fp_at_def ReadTag_def
        one_key_filter_eq)
  from a b c show ?thesis by (intro conjI)
qed

theorem erase_true_only_if_removed_witness:
  "\<not> victim_holds hash_one_bucket one_key_filter 2 \<and>
   confirmed_hit hash_one_bucket one_key_filter 2 \<and>
   hashmap one_key_filter (0, 0) = Some (2, 20) \<and>
   fst (erase hash_one_bucket 2 one_key_filter) = True \<and>
   table (snd (erase hash_one_bucket 2 one_key_filter)) 0 0 = 0 \<and>
   hashmap (snd (erase hash_one_bucket 2 one_key_filter)) (0, 0) = None \<and>
   \<not> victim_holds hash_one_bucket one_key_filter 513 \<and>
   \<not> confirmed_hit hash_one_bucket one_key_filter 513 \<and>
   erase hash_one_bucket 513 one_key_filter = (False, one_key_filter) \<and>
   victim_holds hash_two_buckets full_bucket_filter 5 \<and>
   erase hash_two_buckets 5 full_bucket_filter =
     (True, full_bucket_filter\<lparr>victim := (victim full_bucket_filter)\<lparr>used := False\<rparr>\<rparr>)"
proof -
  note k2 = one_key_filter_2
  note k513 = one_key_filter_513
  note t2 = erase_true_only_if_removed [of hash_one_bucket 2 one_key_filter,
      unfolded Gen_one_bucket Let_def prod.case]
  have r: "fst (erase hash_one_bucket 2 one_key_filter) = True"
    using t2 [THEN conjunct1] k2 by simp
  have s2: "snd (erase hash_one_bucket 2 one_key_filter) =
      erase_cleared hash_one_bucket 2 one_key_filter"
    using t2 [THEN conjunct2, THEN conjunct2, THEN conjunct1] k2
    by (simp add: try_removing_victim_def)
  have t: "table (snd (erase hash_one_bucket 2 one_key_filter)) 0 0 = 0"
    unfolding s2
    using t2 [THEN conjunct2, THEN conjunct2, THEN conjunct2, THEN conjunct1,
        THEN spec, THEN spec, THEN conjunct1, of 0 0] k2 by simp
  have m: "hashmap (snd (erase hash_one_bucket 2 one_key_filter)) (0, 0) = None"
    unfolding s2
    using t2 [THEN conjunct2, THEN conjunct2, THEN conjunct2, THEN conjunct1,
        THEN spec, THEN spec, THEN conjunct2, of 0 0] k2 by simp
  note t513 = erase_true_only_if_removed [of hash_one_bucket 513 one_key_filter,
      THEN conjunct2, THEN conjunct2, THEN conjunct2, THEN conjunct2]
  have ab: "erase hash_one_bucket 513 one_key_filter = (False, one_key_filter)"
    using t513 k513 by simp
  note t5 = erase_true_only_if_removed [of hash_two_buckets 5 full_bucket_filter]
  have f5: "fst (erase hash_two_buckets 5 full_bucket_filter) = True"
    using t5 [THEN conjunct1] victim_holds_full_5 by simp
  have s5: "snd (erase hash_two_buckets 5 full_bucket_filter) =
      full_bucket_filter\<lparr>victim := (victim full_bucket_filter)\<lparr>used := False\<rparr>\<rparr>"
    using t5 [THEN conjunct2, THEN conjunct1] victim_holds_full_5 by simp
  have v5: "erase hash_two_buckets 5 full_bucket_filter =
     (True, full_bucket_filter\<lparr>victim := (victim full_bucket_filter)\<lparr>used := False\<rparr>\<rparr>)"
    using f5 s5 by (simp add: prod_eq_iff)
  from k2 [THEN conjunct1] k2 [THEN conjunct2, THEN conjunct1]
    k2 [THEN conjunct2, THEN conjunct2, THEN conjunct2, THEN conjunct2, THEN conjunct1]
    r t m k513 [THEN conjunct1] k513 [THEN conjunct2, THEN conjunct1] ab
    victim_holds_full_5 v5
  show ?thesis by (intro conjI)
qed

subsection \<open>A key that was never added is found\<close>








end
